theory Spec2Isabelle
  imports Main "HOL-Library.Word"
begin

section \<open>The source's constants\<close>

text \<open>
  Bytes and characters are values of type \<^typ>\<open>char\<close> (256 values), C strings are
  \<^typ>\<open>string\<close> (their bytes up to the terminator). The double quote is
  \<open>CHR 0x22\<close>, the backslash \<open>CHR 0x5C\<close>, the newline \<open>CHR 0x0A\<close>.
\<close>

definition LINE_LENGTH :: int where
  "LINE_LENGTH = 80"

text \<open>\<open>PREFIX\<close> is the format \<open>const char %s[] = \<close>; \<open>sprintf\<close> fills in the name.\<close>

definition PREFIX :: "string \<Rightarrow> string" where
  "PREFIX name = ''const char '' @ name @ ''[] = ''"

definition PREFIX_LENGTH :: nat where
  "PREFIX_LENGTH = 16"

definition POSTFIX :: string where
  "POSTFIX = [CHR 0x22, CHR 0x0A]"

definition POSTFIX_LENGTH :: nat where
  "POSTFIX_LENGTH = 2"

definition ENDFIX :: string where
  "ENDFIX = [CHR '';'', CHR 0x0A, CHR 0x0A] @ ''// End of file'' @ [CHR 0x0A]"

definition ENDFIX_LENGTH :: nat where
  "ENDFIX_LENGTH = 18"

text \<open>
  The conversion of a \<open>size_t\<close> value to \<open>int\<close> (32 bits, two's complement), as in
  \<open>int prefixLength = PREFIX_LENGTH + strlen(pName)\<close>.
\<close>

definition size_to_int :: "nat \<Rightarrow> int" where
  "size_to_int n = sint (word_of_nat n :: 32 word)"

text \<open>The conversion of an \<open>int\<close> to \<open>size_t\<close> (64 bits) in a mixed comparison.\<close>

definition int_to_size :: "int \<Rightarrow> nat" where
  "int_to_size i = unat (word_of_int i :: 64 word)"

section \<open>The escape table\<close>

definition escapeRequired :: "char \<Rightarrow> bool" where
  "escapeRequired character =
     (if character = CHR 0x07 then True
      else if character = CHR 0x08 then True
      else if character = CHR 0x1B then True
      else if character = CHR 0x0C then True
      else if character = CHR 0x0A then True
      else if character = CHR 0x0D then True
      else if character = CHR 0x09 then True
      else if character = CHR 0x0B then True
      else if character = CHR 0x5C then True
      else if character = CHR 0x27 then True
      else if character = CHR 0x22 then True
      else if character = CHR 0x3F then True
      else False)"

definition escapedChar :: "char \<Rightarrow> char" where
  "escapedChar character =
     (if character = CHR 0x07 then CHR ''a''
      else if character = CHR 0x08 then CHR ''b''
      else if character = CHR 0x1B then CHR ''e''
      else if character = CHR 0x0C then CHR ''f''
      else if character = CHR 0x0A then CHR ''n''
      else if character = CHR 0x0D then CHR ''r''
      else if character = CHR 0x09 then CHR ''t''
      else if character = CHR 0x0B then CHR ''v''
      else if character = CHR 0x5C then CHR 0x5C
      else if character = CHR 0x27 then CHR 0x27
      else if character = CHR 0x22 then CHR 0x22
      else if character = CHR 0x3F then CHR ''?''
      else character)"

section \<open>The output stream\<close>

text \<open>
  A \<open>FILE\<close> open for writing is its bytes and the file position (a byte stream, as on
  POSIX, where text and binary streams are the same). \<open>fwrite\<close> overwrites from the
  position on and extends the file; every write is taken to succeed. \<open>fseek\<close> with
  \<open>SEEK_CUR\<close> fails and leaves the position where it is when the target would be
  negative.
\<close>

record stream =
  contents :: string
  pos :: nat

definition fopen_w :: stream where
  "fopen_w = \<lparr>contents = [], pos = 0\<rparr>"

definition fwrite :: "string \<Rightarrow> stream \<Rightarrow> stream" where
  "fwrite bytes f =
     \<lparr>contents = take (pos f) (contents f @ replicate (pos f - length (contents f)) (CHR 0x00))
                  @ bytes @ drop (pos f + length bytes) (contents f),
      pos = pos f + length bytes\<rparr>"

definition fseek_cur :: "int \<Rightarrow> stream \<Rightarrow> stream" where
  "fseek_cur offset f =
     (if int (pos f) + offset < 0 then f else f\<lparr>pos := nat (int (pos f) + offset)\<rparr>)"

section \<open>The transcoder: \<open>parse\<close>\<close>

text \<open>The arguments of \<open>parse\<close> other than the two streams.\<close>

record config =
  pInputFileName :: string
  pExeFileName :: string
  bare :: bool
  pName :: string
  lineLength :: int

definition prefixLength :: "config \<Rightarrow> int" where
  "prefixLength cfg = size_to_int (PREFIX_LENGTH + length (pName cfg))"

text \<open>
  The local variables of \<open>parse\<close> that live across iterations. \<open>line\<close> holds the bytes
  of the output buffer from \<open>pOutputBuffer\<close> up to \<open>pOut\<close>, so that
  \<open>pOut - pOutputBuffer\<close> is its length; the bytes of the buffer beyond \<open>pOut\<close> are
  never read. \<open>prefixHeld\<close> is \<open>pPrefix != NULL\<close>. \<open>linesWritten\<close> is the
  32-bit counter, read as a signed value by \<open>sint\<close>; an increment past \<open>INT_MAX\<close>,
  which C leaves undefined, wraps around in the model.
\<close>

record run =
  line :: string
  prefixHeld :: bool
  addEscaped :: int
  writeLine :: bool
  linesWritten :: "32 word"
  sink :: stream

definition header :: "config \<Rightarrow> string" where
  "header cfg = ''/* This file was created from input file '' @ pInputFileName cfg
     @ '' by '' @ pExeFileName cfg @ '' */'' @ [CHR 0x0A, CHR 0x0A]"

text \<open>The state when the read loop is entered (lines 155-170), on the stream \<open>out\<close>.\<close>

definition start :: "config \<Rightarrow> stream \<Rightarrow> run" where
  "start cfg out =
     \<lparr>line = [], prefixHeld = True, addEscaped = 0, writeLine = False, linesWritten = 0,
      sink = (if \<not> bare cfg then fwrite (header cfg) out else out)\<rparr>"

text \<open>Lines 221-230: the postfix is added, the line is written, the buffer is reset.\<close>

definition write_line :: "run \<Rightarrow> run" where
  "write_line st =
     st\<lparr>sink := fwrite (line st @ take POSTFIX_LENGTH POSTFIX) (sink st),
        linesWritten := linesWritten st + 1,
        line := [],
        writeLine := False\<rparr>"

definition flush_check :: "config \<Rightarrow> run \<Rightarrow> run" where
  "flush_check cfg st =
     (if int (length (line st)) \<ge> lineLength cfg - int POSTFIX_LENGTH \<or> writeLine st
      then write_line st else st)"

text \<open>
  One iteration of the inner loop (lines 176-230) at the input byte \<open>c = *pIn\<close>. The
  result says whether \<open>pIn\<close> was advanced.
\<close>

definition iteration :: "config \<Rightarrow> char \<Rightarrow> run \<Rightarrow> run \<times> bool" where
  "iteration cfg c st =
     (let off = int (length (line st)) in
      if off < prefixLength cfg then
        (flush_check cfg
           (st\<lparr>line := line st @
                [if prefixHeld st then PREFIX (pName cfg) ! nat off else CHR '' '']\<rparr>), False)
      else if off = prefixLength cfg then
        (flush_check cfg (st\<lparr>prefixHeld := False, line := line st @ [CHR 0x22]\<rparr>), False)
      else if addEscaped st = 2 then
        (flush_check cfg (st\<lparr>line := line st @ [CHR 0x5C], addEscaped := addEscaped st - 1\<rparr>),
         False)
      else if addEscaped st = 1 then
        (flush_check cfg
           (st\<lparr>line := line st @ [escapedChar c], addEscaped := addEscaped st - 1\<rparr>), True)
      else if escapeRequired c then
        (flush_check cfg
           (st\<lparr>addEscaped := 2,
               writeLine := (if off > lineLength cfg - int POSTFIX_LENGTH - 2 then True
                             else writeLine st)\<rparr>), False)
      else
        (flush_check cfg (st\<lparr>line := line st @ [c]\<rparr>), True))"

text \<open>
  The inner loop (line 175) over the bytes of one read. It has no bound of its own: with
  a line length too small for the prefix it writes lines forever, which is the value
  \<open>None\<close>.
\<close>

partial_function (option) process_buffer :: "config \<Rightarrow> string \<Rightarrow> run \<Rightarrow> run option" where
  "process_buffer cfg inp st =
     (case inp of
        [] \<Rightarrow> Some st
      | c # rest \<Rightarrow>
          (case iteration cfg c st of
             (st', advanced) \<Rightarrow> process_buffer cfg (if advanced then rest else inp) st'))"

declare process_buffer.simps [code]

text \<open>
  The read loop (line 172): \<open>fread\<close> delivers the next \<open>count\<close> bytes of the input, or
  what is left of it; the source's \<open>count\<close> is \<open>sizeof(inputBuffer) = 120\<close>.
\<close>

function read_loop :: "config \<Rightarrow> nat \<Rightarrow> string \<Rightarrow> run \<Rightarrow> run option" where
  "read_loop cfg count inp st =
     (let buffer = take count inp in
      if length buffer > 0 then
        (case process_buffer cfg buffer st of
           None \<Rightarrow> None
         | Some st' \<Rightarrow> read_loop cfg count (drop count inp) st')
      else Some st)"
  by pat_completeness auto
termination
  by (relation "measure (\<lambda>(cfg, count, inp, st). length inp)") auto

declare read_loop.simps [simp del]

text \<open>Lines 234-240: what is left in the buffer is written as a last line.\<close>

definition write_rest :: "run \<Rightarrow> run" where
  "write_rest st =
     (if length (line st) > 0
      then st\<lparr>sink := fwrite (line st @ take POSTFIX_LENGTH POSTFIX) (sink st),
              linesWritten := linesWritten st + 1,
              line := line st @ take POSTFIX_LENGTH POSTFIX\<rparr>
      else st)"

text \<open>Lines 242-248: seek back over the postfix and write the end.\<close>

definition write_endfix :: "config \<Rightarrow> stream \<Rightarrow> stream" where
  "write_endfix cfg f =
     (if bare cfg
      then fwrite [CHR '';'', CHR 0x0A] (fseek_cur (- int POSTFIX_LENGTH) f)
      else fwrite (take ENDFIX_LENGTH ENDFIX) (fseek_cur (- int POSTFIX_LENGTH) f))"

text \<open>
  Lines 165-240 of \<open>parse\<close>: the header and every line written through the flush path,
  before the end is written.
\<close>

definition literal_lines :: "config \<Rightarrow> nat \<Rightarrow> string \<Rightarrow> stream \<Rightarrow> run option" where
  "literal_lines cfg count inp out =
     map_option write_rest (read_loop cfg count inp (start cfg out))"

text \<open>
  \<open>parse\<close> with reads of \<open>count\<close> bytes. \<open>bufferOk\<close> and \<open>prefixOk\<close> say whether the two
  calls of \<open>malloc\<close> returned a buffer. The result is the returned \<open>linesWritten\<close>, as
  the \<open>int\<close> it is, and the output stream; \<open>None\<close> is a run that does not return.
\<close>

definition parse_sized ::
  "nat \<Rightarrow> bool \<Rightarrow> bool \<Rightarrow> config \<Rightarrow> string \<Rightarrow> stream \<Rightarrow> (int \<times> stream) option" where
  "parse_sized count bufferOk prefixOk cfg inp out =
     (if bufferOk \<and> prefixOk then
        map_option (\<lambda>st. (sint (linesWritten st), write_endfix cfg (sink st)))
          (literal_lines cfg count inp out)
      else Some (0, out))"

definition parse :: "bool \<Rightarrow> bool \<Rightarrow> config \<Rightarrow> string \<Rightarrow> stream \<Rightarrow> (int \<times> stream) option" where
  "parse = parse_sized 120"

section \<open>The caller: \<open>main\<close>\<close>

definition DIR_SEPARATORS :: string where
  "DIR_SEPARATORS = [CHR 0x5C, CHR ''/'']"

definition EXT_SEPARATOR :: string where
  "EXT_SEPARATOR = ''.''"

definition OUTPUT_FILE_EXTENSION :: string where
  "OUTPUT_FILE_EXTENSION = ''array''"

text \<open>
  \<open>strtok\<close> on the string \<open>s\<close> that is still to be scanned: the next token and what is
  left to scan after the delimiter that ended it, or \<open>None\<close> for \<open>NULL\<close>.
\<close>

definition strtok :: "string \<Rightarrow> string \<Rightarrow> (string \<times> string) option" where
  "strtok delims s =
     (let s' = dropWhile (\<lambda>c. c \<in> set delims) s in
      if s' = [] then None
      else Some (takeWhile (\<lambda>c. c \<notin> set delims) s',
                 drop 1 (dropWhile (\<lambda>c. c \<notin> set delims) s')))"

lemma strtok_shorter: "strtok delims s = Some (tok, s') \<Longrightarrow> length s' < length s"
proof -
  assume a: "strtok delims s = Some (tok, s')"
  let ?t = "dropWhile (\<lambda>c. c \<in> set delims) s"
  from a have n: "?t \<noteq> []" and s': "s' = drop 1 (dropWhile (\<lambda>c. c \<notin> set delims) ?t)"
    by (auto simp add: strtok_def Let_def split: if_splits)
  have "length s' \<le> length ?t - 1"
    unfolding s' using length_dropWhile_le[of "\<lambda>c. c \<notin> set delims" ?t] by simp
  moreover have "length ?t \<le> length s"
    by (rule length_dropWhile_le)
  moreover have "0 < length ?t"
    using n by simp
  ultimately show ?thesis by linarith
qed

text \<open>
  The loop of lines 337-341: \<open>found\<close> is \<open>pDefaultName\<close>, replaced by every token that
  \<open>strtok\<close> finds.
\<close>

function last_token :: "string \<Rightarrow> string \<Rightarrow> string \<Rightarrow> string" where
  "last_token delims found s =
     (case strtok delims s of
        None \<Rightarrow> found
      | Some (tok, s') \<Rightarrow> last_token delims tok s')"
  by pat_completeness auto
termination
  by (relation "measure (\<lambda>(delims, found, s). length s)") (auto dest: strtok_shorter)

declare last_token.simps [simp del]

text \<open>Lines 335-342: \<open>pDefaultName\<close>, \<open>None\<close> when the last \<open>strtok\<close> returns \<open>NULL\<close>.\<close>

definition default_name :: "string \<Rightarrow> string option" where
  "default_name path =
     map_option fst (strtok EXT_SEPARATOR (last_token DIR_SEPARATORS path path))"

text \<open>
  The variables of \<open>main\<close> as the argument loop (lines 293-320) leaves them, with
  \<open>pExeName\<close> as lines 278-289 compute it.
\<close>

record arguments =
  argExe :: string
  argInput :: "string option"
  argName :: "string option"
  argLength :: int
  argBare :: bool
  argOutput :: "string option"

text \<open>
  What the run meets outside the program: the bytes of a file that \<open>fopen\<close> can read,
  whether \<open>fopen\<close> can create a file, and whether each \<open>malloc\<close> returns a buffer.
\<close>

record platform =
  openInput :: "string \<Rightarrow> string option"
  openOutput :: "string \<Rightarrow> bool"
  nameOk :: bool
  outputNameOk :: bool
  bufferOk :: bool
  prefixOk :: bool

text \<open>The calls of \<open>printf\<close>, by their format.\<close>

datatype message =
    Usage
  | CannotOpenInput string
  | CannotAllocName
  | UsingLineLength int int
  | CannotAllocOutputName
  | CannotOpenOutput string
  | Arrifying string string int string bool
  | Done int

record outcome =
  retValue :: int
  printed :: "message list"
  outputFile :: "(string \<times> stream) option"

text \<open>
  A run that does not reach \<open>return\<close>: \<open>strlen\<close> of a null pointer, or a call of
  \<open>parse\<close> that does not return.
\<close>

datatype failure = NullString | NoReturn

text \<open>Lines 353-356: the line length that \<open>parse\<close> is called with.\<close>

definition too_short :: "string \<Rightarrow> int \<Rightarrow> bool" where
  "too_short name len \<longleftrightarrow>
     len < 0 \<or> int_to_size len < PREFIX_LENGTH + length name + 5"

definition checked_length :: "string \<Rightarrow> int \<Rightarrow> int" where
  "checked_length name len =
     (if too_short name len then size_to_int (PREFIX_LENGTH + length name + 5) else len)"

text \<open>Lines 375-398, for an output file name that is not null.\<close>

definition write_output ::
  "arguments \<Rightarrow> platform \<Rightarrow> string \<Rightarrow> string \<Rightarrow> string \<Rightarrow> message list \<Rightarrow> string
     \<Rightarrow> failure + outcome" where
  "write_output a p inName inp name notes outName =
     (if \<not> openOutput p outName then
        Inr \<lparr>retValue = - 1, printed = notes @ [CannotOpenOutput outName, Usage],
             outputFile = None\<rparr>
      else
        (case parse (bufferOk p) (prefixOk p)
                \<lparr>pInputFileName = inName, pExeFileName = argExe a, bare = argBare a,
                 pName = name, lineLength = checked_length name (argLength a)\<rparr>
                inp fopen_w of
           None \<Rightarrow> Inl NoReturn
         | Some (x, f) \<Rightarrow>
             Inr \<lparr>retValue = 0,
                  printed = notes @
                    [Arrifying inName name (checked_length name (argLength a)) outName
                       (argBare a),
                     Done x],
                  outputFile = Some (outName, f)\<rparr>))"

text \<open>\<open>main\<close> from line 322 on.\<close>

definition main :: "arguments \<Rightarrow> platform \<Rightarrow> failure + outcome" where
  "main a p =
     (case argInput a of
        None \<Rightarrow> Inr \<lparr>retValue = - 1, printed = [Usage], outputFile = None\<rparr>
      | Some inName \<Rightarrow>
          (case openInput p inName of
             None \<Rightarrow>
               Inr \<lparr>retValue = - 1, printed = [CannotOpenInput inName, Usage],
                    outputFile = None\<rparr>
           | Some inp \<Rightarrow>
               if \<not> nameOk p then
                 (case argOutput a of
                    None \<Rightarrow>
                      Inr \<lparr>retValue = - 1, printed = [CannotAllocName, Usage],
                           outputFile = None\<rparr>
                  | Some outName \<Rightarrow>
                      if openOutput p outName then
                        Inr \<lparr>retValue = - 1, printed = [CannotAllocName, Usage],
                             outputFile = Some (outName, fopen_w)\<rparr>
                      else
                        Inr \<lparr>retValue = - 1,
                             printed = [CannotAllocName, CannotOpenOutput outName, Usage],
                             outputFile = None\<rparr>)
               else
                 (case (case argName a of None \<Rightarrow> default_name inName | Some n \<Rightarrow> Some n) of
                    None \<Rightarrow> Inl NullString
                  | Some name \<Rightarrow>
                      (let notes =
                             (if too_short name (argLength a)
                              then [UsingLineLength
                                      (size_to_int (PREFIX_LENGTH + length name + 5))
                                      (argLength a)]
                              else [])
                       in case argOutput a of
                            Some outName \<Rightarrow> write_output a p inName inp name notes outName
                          | None \<Rightarrow>
                              (case default_name inName of
                                 None \<Rightarrow> Inl NullString
                               | Some d \<Rightarrow>
                                   if outputNameOk p then
                                     write_output a p inName inp name notes
                                       (d @ EXT_SEPARATOR @ OUTPUT_FILE_EXTENSION)
                                   else
                                     Inr \<lparr>retValue = - 1,
                                          printed = notes @ [CannotAllocOutputName, Usage],
                                          outputFile = None\<rparr>)))))"

section \<open>Reading the output back\<close>

text \<open>
  What one input byte adds to the line buffer: the backslash of line 195 and the
  character of line 199 for a byte that \<open>escapeRequired\<close> selects, the byte itself
  (line 215) otherwise.
\<close>

definition escape :: "char \<Rightarrow> string" where
  "escape c = (if escapeRequired c then [CHR 0x5C, escapedChar c] else [c])"

definition escape_all :: "string \<Rightarrow> string" where
  "escape_all bs = concat (map escape bs)"

text \<open>
  The escape table in the words of the specification: the twelve bytes and their
  mnemonics; every other byte stands for itself.
\<close>

definition escape_table :: "(char \<times> char) list" where
  "escape_table =
     [(CHR 0x07, CHR ''a''), (CHR 0x08, CHR ''b''), (CHR 0x1B, CHR ''e''),
      (CHR 0x0C, CHR ''f''), (CHR 0x0A, CHR ''n''), (CHR 0x0D, CHR ''r''),
      (CHR 0x09, CHR ''t''), (CHR 0x0B, CHR ''v''), (CHR 0x5C, CHR 0x5C),
      (CHR 0x27, CHR 0x27), (CHR 0x22, CHR 0x22), (CHR 0x3F, CHR ''?'')]"

definition table_escape :: "char \<Rightarrow> string" where
  "table_escape c =
     (case map_of escape_table c of
        Some m \<Rightarrow> [CHR 0x5C, m]
      | None \<Rightarrow> [c])"

text \<open>
  Reading a string literal as a C compiler does: \<open>scan_quoted\<close> takes the characters
  up to the closing quote, a backslash together with the character after it, and
  returns them with the text after the quote.
\<close>

fun scan_quoted :: "string \<Rightarrow> (string \<times> string) option" where
  "scan_quoted [] = None"
| "scan_quoted (c # cs) =
     (if c = CHR 0x22 then Some ([], cs)
      else if c = CHR 0x5C then
        (case cs of
           [] \<Rightarrow> None
         | d # ds \<Rightarrow> map_option (\<lambda>(raw, rest). (c # d # raw, rest)) (scan_quoted ds))
      else map_option (\<lambda>(raw, rest). (c # raw, rest)) (scan_quoted cs))"

lemma scan_quoted_shorter: "scan_quoted s = Some (raw, rest) \<Longrightarrow> length rest < length s"
proof (induction s arbitrary: raw rest rule: scan_quoted.induct)
  case 1
  then show ?case by simp
next
  case (2 c cs)
  then show ?case
    by (fastforce split: if_splits list.splits)
qed

text \<open>
  The physical lines of a text in which every line is \<open>n\<close> leading characters, an
  opening quote, quoted content, a closing quote and a newline: the leading characters
  and the content of each line, or \<open>None\<close> when the text is not of that form.
\<close>

function physical_lines :: "nat \<Rightarrow> string \<Rightarrow> (string \<times> string) list option" where
  "physical_lines n text =
     (if text = [] then Some []
      else if length text \<le> n then None
      else if text ! n \<noteq> CHR 0x22 then None
      else
        (case scan_quoted (drop (Suc n) text) of
           None \<Rightarrow> None
         | Some (raw, rest) \<Rightarrow>
             (case rest of
                [] \<Rightarrow> None
              | e # others \<Rightarrow>
                  if e = CHR 0x0A
                  then map_option ((#) (take n text, raw)) (physical_lines n others)
                  else None)))"
  by pat_completeness auto
termination
  by (relation "measure (\<lambda>(n, text). length text)") (auto dest: scan_quoted_shorter)

declare physical_lines.simps [simp del]

text \<open>A physical line as it stands in the file.\<close>

definition whole :: "string \<times> string \<Rightarrow> string" where
  "whole l = fst l @ [CHR 0x22] @ snd l @ POSTFIX"

text \<open>The characters that C's escape sequences stand for, and the bytes of a literal.\<close>

definition unescapedChar :: "char \<Rightarrow> char option" where
  "unescapedChar m =
     (if m = CHR ''a'' then Some (CHR 0x07)
      else if m = CHR ''b'' then Some (CHR 0x08)
      else if m = CHR ''e'' then Some (CHR 0x1B)
      else if m = CHR ''f'' then Some (CHR 0x0C)
      else if m = CHR ''n'' then Some (CHR 0x0A)
      else if m = CHR ''r'' then Some (CHR 0x0D)
      else if m = CHR ''t'' then Some (CHR 0x09)
      else if m = CHR ''v'' then Some (CHR 0x0B)
      else if m = CHR 0x5C then Some (CHR 0x5C)
      else if m = CHR 0x27 then Some (CHR 0x27)
      else if m = CHR 0x22 then Some (CHR 0x22)
      else if m = CHR ''?'' then Some (CHR 0x3F)
      else None)"

fun unescape :: "string \<Rightarrow> string option" where
  "unescape [] = Some []"
| "unescape (c # cs) =
     (if c = CHR 0x5C then
        (case cs of
           [] \<Rightarrow> None
         | m # rest \<Rightarrow>
             (case unescapedChar m of
                None \<Rightarrow> None
              | Some b \<Rightarrow> map_option ((#) b) (unescape rest)))
      else map_option ((#) c) (unescape cs))"

text \<open>
  Everything written so far: the bytes of the output file and of the line buffer.
\<close>

definition written :: "run \<Rightarrow> string" where
  "written st = contents (sink st) @ line st"

text \<open>The output of lines 165-240 after the header comment.\<close>

definition literal_text :: "config \<Rightarrow> run \<Rightarrow> string" where
  "literal_text cfg st =
     drop (length (if bare cfg then [] else header cfg)) (contents (sink st))"

text \<open>
  The line length that \<open>main\<close> hands to \<open>parse\<close> is at least the prefix length plus 5
  (lines 353-356); the name and the line length are such that the \<open>int\<close> arithmetic of
  \<open>parse\<close> does not overflow.
\<close>

definition effective :: "config \<Rightarrow> bool" where
  "effective cfg \<longleftrightarrow>
     PREFIX_LENGTH + length (pName cfg) + 5 < 2 ^ 31 \<and>
     prefixLength cfg + 5 \<le> lineLength cfg \<and>
     lineLength cfg < 2 ^ 31 - 1"

text \<open>
  The state between two input bytes: no escape pending, no flush requested, and the
  line buffer either empty or holding the prefix region, the opening quote and some
  content, with room left.
\<close>

definition boundary :: "config \<Rightarrow> run \<Rightarrow> bool" where
  "boundary cfg st \<longleftrightarrow>
     addEscaped st = 0 \<and> \<not> writeLine st \<and>
     (line st = [] \<or>
      (PREFIX_LENGTH + length (pName cfg) + 1 < length (line st) \<and>
       int (length (line st)) < lineLength cfg - 2))"

text \<open>
  The inner loop stopped after \<open>n\<close> iterations: the bytes of the buffer from \<open>pIn\<close> on,
  and the state.
\<close>

fun iterations :: "config \<Rightarrow> nat \<Rightarrow> string \<Rightarrow> run \<Rightarrow> string \<times> run" where
  "iterations cfg 0 inp st = (inp, st)"
| "iterations cfg (Suc n) inp st =
     (case inp of
        [] \<Rightarrow> ([], st)
      | c # rest \<Rightarrow>
          (case iteration cfg c st of
             (st', advanced) \<Rightarrow> iterations cfg n (if advanced then rest else inp) st'))"

text \<open>A configuration and a call of \<open>main\<close> to try the theorems on.\<close>

definition example_config :: config where
  "example_config =
     \<lparr>pInputFileName = ''in.txt'', pExeFileName = ''arrayify'', bare = True, pName = ''x'',
      lineLength = 22\<rparr>"

definition example_arguments :: arguments where
  "example_arguments =
     \<lparr>argExe = ''arrayify'', argInput = Some ''in.txt'', argName = Some ''x'',
      argLength = 5, argBare = True, argOutput = Some ''out.c''\<rparr>"

text \<open>A call that leaves the name, the output file and a valid line length to \<open>main\<close>.\<close>

definition example_defaults :: arguments where
  "example_defaults =
     \<lparr>argExe = ''arrayify'', argInput = Some ''in.txt'', argName = None,
      argLength = - 3, argBare = True, argOutput = None\<rparr>"

definition example_platform :: platform where
  "example_platform =
     \<lparr>openInput = (\<lambda>name. if name = ''in.txt'' then Some ''a?b'' else None),
      openOutput = (\<lambda>name. True),
      nameOk = True, outputNameOk = True, bufferOk = True, prefixOk = True\<rparr>"

section \<open>The run, byte by byte\<close>

text \<open>
  The prefix region of a line: the prefix while \<open>pPrefix\<close> is held, blanks afterwards.
\<close>

definition lead :: "config \<Rightarrow> bool \<Rightarrow> string" where
  "lead cfg held =
     (if held then PREFIX (pName cfg) else replicate (PREFIX_LENGTH + length (pName cfg)) (CHR '' ''))"

text \<open>
  What the iterations for one input byte do to a state between two bytes: they open
  the line when the buffer is empty, write the line before an escape pair that would
  not fit, add the byte's characters, and write the line when it is full.
\<close>

definition open_line :: "config \<Rightarrow> run \<Rightarrow> run" where
  "open_line cfg st = st\<lparr>prefixHeld := False, line := lead cfg (prefixHeld st) @ [CHR 0x22]\<rparr>"

definition emit :: "config \<Rightarrow> char \<Rightarrow> run \<Rightarrow> run" where
  "emit cfg c st =
     (let st1 = (if line st = [] then open_line cfg st else st) in
      if escapeRequired c then
        (let st2 = (if int (length (line st1)) > lineLength cfg - 4
                    then open_line cfg (write_line st1) else st1)
         in flush_check cfg (st2\<lparr>line := line st2 @ [CHR 0x5C, escapedChar c]\<rparr>))
      else flush_check cfg (st1\<lparr>line := line st1 @ [c]\<rparr>))"

text \<open>
  The same on the bytes alone: the groups of input bytes of the lines written so far
  and the bytes of the line in the buffer. \<open>room\<close> is the number of content characters
  a line holds.
\<close>

definition room :: "config \<Rightarrow> nat" where
  "room cfg = nat (lineLength cfg - prefixLength cfg - 3)"

definition pack_byte :: "config \<Rightarrow> char \<Rightarrow> string list \<times> string \<Rightarrow> string list \<times> string" where
  "pack_byte cfg c A =
     (case A of (gs, cur) \<Rightarrow>
        (case (if escapeRequired c \<and> cur \<noteq> [] \<and> room cfg < length (escape_all cur) + 2
               then (gs @ [cur], []) else (gs, cur)) of
           (gs1, cur1) \<Rightarrow>
             if room cfg \<le> length (escape_all (cur1 @ [c]))
             then (gs1 @ [cur1 @ [c]], []) else (gs1, cur1 @ [c])))"

definition groups :: "config \<Rightarrow> string \<Rightarrow> string list" where
  "groups cfg inp =
     (case fold (pack_byte cfg) inp ([], []) of
        (gs, cur) \<Rightarrow> if cur = [] then gs else gs @ [cur])"

definition tidy :: "config \<Rightarrow> string list \<times> string \<Rightarrow> bool" where
  "tidy cfg A \<longleftrightarrow>
     (\<forall>g \<in> set (fst A). g \<noteq> [] \<and> length (escape_all g) \<le> room cfg) \<and>
     (snd A = [] \<or> length (escape_all (snd A)) < room cfg)"

text \<open>Every line written inside the loop is full, or one character short of it.\<close>

definition filled :: "config \<Rightarrow> string list \<times> string \<Rightarrow> bool" where
  "filled cfg A \<longleftrightarrow> (\<forall>g \<in> set (fst A). room cfg \<le> length (escape_all g) + 1)"

text \<open>The text of the lines for given groups, and the state that holds them.\<close>

definition shown :: "config \<Rightarrow> bool \<Rightarrow> string \<Rightarrow> string" where
  "shown cfg first g = lead cfg first @ [CHR 0x22] @ escape_all g @ POSTFIX"

definition render :: "config \<Rightarrow> string list \<Rightarrow> string" where
  "render cfg gs =
     (case gs of [] \<Rightarrow> [] | g # rest \<Rightarrow> shown cfg True g @ concat (map (shown cfg False) rest))"

definition laid_out :: "config \<Rightarrow> string list \<Rightarrow> (string \<times> string) list" where
  "laid_out cfg gs =
     (case gs of
        [] \<Rightarrow> []
      | g # rest \<Rightarrow>
          (lead cfg True, escape_all g) # map (\<lambda>g. (lead cfg False, escape_all g)) rest)"

definition conc :: "config \<Rightarrow> string \<Rightarrow> string list \<times> string \<Rightarrow> run" where
  "conc cfg base A =
     (case A of (gs, cur) \<Rightarrow>
       \<lparr>line = (if cur = [] then [] else lead cfg (gs = []) @ [CHR 0x22] @ escape_all cur),
        prefixHeld = (gs = [] \<and> cur = []),
        addEscaped = 0,
        writeLine = False,
        linesWritten = word_of_nat (length gs),
        sink = \<lparr>contents = base @ render cfg gs, pos = length (base @ render cfg gs)\<rparr>\<rparr>)"

section \<open>From iterations to bytes\<close>

lemma size_to_int_small: "n < 2 ^ 31 \<Longrightarrow> size_to_int n = int n"
  unfolding size_to_int_def by (simp add: sint_uint signed_take_bit_int_eq_self take_bit_nat_eq_self unsigned_of_nat)

lemma length_PREFIX: "length (PREFIX name) = PREFIX_LENGTH + length name"
  by (simp add: PREFIX_def PREFIX_LENGTH_def)

lemma length_lead: "length (lead cfg held) = PREFIX_LENGTH + length (pName cfg)"
  by (simp add: lead_def length_PREFIX)

lemma prefixLength_effective:
  "effective cfg \<Longrightarrow> prefixLength cfg = int (PREFIX_LENGTH + length (pName cfg))"
  by (simp add: effective_def prefixLength_def size_to_int_small)

lemma fill_step:
  assumes e: "effective cfg" and k: "length (line st) < PREFIX_LENGTH + length (pName cfg)"
    and w: "\<not> writeLine st"
  shows "iteration cfg c st =
     (st\<lparr>line := line st @ [lead cfg (prefixHeld st) ! length (line st)]\<rparr>, False)"
  using e k w prefixLength_effective[OF e]
  by (auto simp add: iteration_def flush_check_def effective_def lead_def POSTFIX_LENGTH_def Let_def)

lemma quote_step:
  assumes e: "effective cfg" and k: "length (line st) = PREFIX_LENGTH + length (pName cfg)"
    and w: "\<not> writeLine st"
  shows "iteration cfg c st =
     (st\<lparr>prefixHeld := False, line := line st @ [CHR 0x22]\<rparr>, False)"
  using e k w prefixLength_effective[OF e]
  by (auto simp add: iteration_def flush_check_def effective_def lead_def POSTFIX_LENGTH_def Let_def)

lemma fill_prefix:
  assumes e: "effective cfg"
  shows "length (line st) \<le> PREFIX_LENGTH + length (pName cfg) \<Longrightarrow> \<not> writeLine st \<Longrightarrow>
     process_buffer cfg (c # rest) st =
     process_buffer cfg (c # rest)
       (st\<lparr>prefixHeld := False,
           line := line st @ drop (length (line st)) (lead cfg (prefixHeld st)) @ [CHR 0x22]\<rparr>)"
proof (induction "PREFIX_LENGTH + length (pName cfg) - length (line st)" arbitrary: st)
  case 0
  then have k: "length (line st) = PREFIX_LENGTH + length (pName cfg)" by simp
  show ?case
    by (subst process_buffer.simps) (simp add: quote_step[OF e k] 0 k length_lead)
next
  case (Suc d)
  then have k: "length (line st) < PREFIX_LENGTH + length (pName cfg)" by simp
  let ?st = "st\<lparr>line := line st @ [lead cfg (prefixHeld st) ! length (line st)]\<rparr>"
  have "process_buffer cfg (c # rest) st = process_buffer cfg (c # rest) ?st"
    by (subst process_buffer.simps) (simp add: fill_step[OF e k] Suc)
  also have "\<dots> = process_buffer cfg (c # rest)
       (?st\<lparr>prefixHeld := False,
           line := line ?st @ drop (length (line ?st)) (lead cfg (prefixHeld ?st)) @ [CHR 0x22]\<rparr>)"
    using Suc k by (intro Suc.hyps(1)) auto
  finally have "process_buffer cfg (c # rest) st = process_buffer cfg (c # rest)
       (st\<lparr>prefixHeld := False,
          line := line st @ lead cfg (prefixHeld st) ! length (line st) #
                 drop (Suc (length (line st))) (lead cfg (prefixHeld st)) @ [CHR 0x22]\<rparr>)"
    by simp
  moreover have "lead cfg (prefixHeld st) ! length (line st) #
                 drop (Suc (length (line st))) (lead cfg (prefixHeld st))
       = drop (length (line st)) (lead cfg (prefixHeld st))"
    using k by (intro Cons_nth_drop_Suc) (simp add: length_lead)
  ultimately show ?case
    by (metis append_Cons)
qed

lemma pb_step:
  "process_buffer cfg (c # rest) st =
     (case iteration cfg c st of
        (st', advanced) \<Rightarrow> process_buffer cfg (if advanced then rest else c # rest) st')"
  by (subst process_buffer.simps) simp

lemma pb_Nil: "process_buffer cfg [] st = Some st"
  by (subst process_buffer.simps) simp

lemma backslash_step:
  assumes "effective cfg" "PREFIX_LENGTH + length (pName cfg) < length (line s)"
    "addEscaped s = 2" "\<not> writeLine s" "int (length (line s)) + 1 < lineLength cfg - 2"
  shows "iteration cfg c s = (s\<lparr>line := line s @ [CHR 0x5C], addEscaped := 1\<rparr>, False)"
  using assms prefixLength_effective[OF assms(1)]
  by (simp add: iteration_def flush_check_def POSTFIX_LENGTH_def Let_def)

lemma mnemonic_step:
  assumes "effective cfg" "PREFIX_LENGTH + length (pName cfg) < length (line s)"
    "addEscaped s = 1"
  shows "iteration cfg c s =
    (flush_check cfg (s\<lparr>line := line s @ [escapedChar c], addEscaped := 0\<rparr>), True)"
  using assms prefixLength_effective[OF assms(1)]
  by (simp add: iteration_def Let_def)

lemma plain_step:
  assumes "effective cfg" "PREFIX_LENGTH + length (pName cfg) < length (line s)"
    "addEscaped s = 0" "\<not> escapeRequired c"
  shows "iteration cfg c s = (flush_check cfg (s\<lparr>line := line s @ [c]\<rparr>), True)"
  using assms prefixLength_effective[OF assms(1)]
  by (simp add: iteration_def Let_def)

lemma arm_step:
  assumes "effective cfg" "PREFIX_LENGTH + length (pName cfg) < length (line s)"
    "addEscaped s = 0" "escapeRequired c" "\<not> writeLine s"
  shows "iteration cfg c s =
    (flush_check cfg
       (s\<lparr>addEscaped := 2, writeLine := (int (length (line s)) > lineLength cfg - 4)\<rparr>), False)"
  using assms prefixLength_effective[OF assms(1)]
  by (simp add: iteration_def Let_def POSTFIX_LENGTH_def)

lemma pending_steps:
  assumes e: "effective cfg" and l: "PREFIX_LENGTH + length (pName cfg) < length (line s)"
    and a: "addEscaped s = 2" and w: "\<not> writeLine s"
    and r: "int (length (line s)) \<le> lineLength cfg - 4"
  shows "process_buffer cfg (c # rest) s =
     process_buffer cfg rest
       (flush_check cfg (s\<lparr>line := line s @ [CHR 0x5C, escapedChar c], addEscaped := 0\<rparr>))"
proof -
  let ?s1 = "s\<lparr>line := line s @ [CHR 0x5C], addEscaped := 1\<rparr>"
  have "process_buffer cfg (c # rest) s = process_buffer cfg (c # rest) ?s1"
    using r by (simp add: pb_step[of cfg c rest s] backslash_step[OF e l a w])
  also have "\<dots> = process_buffer cfg rest
       (flush_check cfg (?s1\<lparr>line := line ?s1 @ [escapedChar c], addEscaped := 0\<rparr>))"
    using l by (simp add: pb_step[of cfg c rest ?s1] mnemonic_step[OF e])
  finally show ?thesis by simp
qed

lemma open_steps:
  assumes e: "effective cfg" and l: "PREFIX_LENGTH + length (pName cfg) < length (line s)"
    and a: "addEscaped s = 0" and w: "\<not> writeLine s"
    and r: "int (length (line s)) < lineLength cfg - 2"
  shows "process_buffer cfg (c # rest) s =
     process_buffer cfg rest
       (if escapeRequired c then
          (let s2 = (if int (length (line s)) > lineLength cfg - 4
                     then open_line cfg (write_line s) else s)
           in flush_check cfg (s2\<lparr>line := line s2 @ [CHR 0x5C, escapedChar c]\<rparr>))
        else flush_check cfg (s\<lparr>line := line s @ [c]\<rparr>))"
proof (cases "escapeRequired c")
  case False
  then show ?thesis
    by (simp add: pb_step[of cfg c rest s] plain_step[OF e l a])
next
  case True
  note pl = prefixLength_effective[OF e]
  show ?thesis
  proof (cases "int (length (line s)) > lineLength cfg - 4")
    case False
    let ?s1 = "s\<lparr>addEscaped := 2\<rparr>"
    have same: "s\<lparr>addEscaped := 2, writeLine := False\<rparr> = ?s1"
      using w by (cases s) simp
    have "process_buffer cfg (c # rest) s = process_buffer cfg (c # rest) ?s1"
      using False w r
      by (simp add: pb_step[of cfg c rest s] arm_step[OF e l a True w] flush_check_def
          POSTFIX_LENGTH_def same)
    also have "\<dots> = process_buffer cfg rest
       (flush_check cfg (?s1\<lparr>line := line ?s1 @ [CHR 0x5C, escapedChar c], addEscaped := 0\<rparr>))"
      using False l w by (intro pending_steps[OF e]) auto
    also have "?s1\<lparr>line := line ?s1 @ [CHR 0x5C, escapedChar c], addEscaped := 0\<rparr>
        = s\<lparr>line := line s @ [CHR 0x5C, escapedChar c]\<rparr>"
      using a by (cases s) simp
    finally show ?thesis using True False by (simp add: Let_def)
  next
    case over: True
    let ?s1 = "(write_line s)\<lparr>addEscaped := 2\<rparr>"
    let ?s2 = "?s1\<lparr>prefixHeld := False,
           line := line ?s1 @ drop (length (line ?s1)) (lead cfg (prefixHeld ?s1)) @ [CHR 0x22]\<rparr>"
    have same: "flush_check cfg (s\<lparr>addEscaped := 2, writeLine := True\<rparr>) = ?s1"
      by (cases s) (simp add: flush_check_def write_line_def)
    have "process_buffer cfg (c # rest) s = process_buffer cfg (c # rest) ?s1"
      using over by (simp add: pb_step[of cfg c rest s] arm_step[OF e l a True w] same)
    also have "\<dots> = process_buffer cfg (c # rest) ?s2"
      by (intro fill_prefix[OF e]) (simp_all add: write_line_def)
    also have "\<dots> = process_buffer cfg rest
       (flush_check cfg (?s2\<lparr>line := line ?s2 @ [CHR 0x5C, escapedChar c], addEscaped := 0\<rparr>))"
      using e pl by (intro pending_steps[OF e]) (auto simp add: write_line_def length_lead effective_def)
    also have "?s2\<lparr>line := line ?s2 @ [CHR 0x5C, escapedChar c], addEscaped := 0\<rparr>
        = (open_line cfg (write_line s))\<lparr>line := line (open_line cfg (write_line s)) @ [CHR 0x5C, escapedChar c]\<rparr>"
      using a by (cases s) (simp add: write_line_def open_line_def)
    finally show ?thesis using True over by (simp add: Let_def)
  qed
qed

lemma macro_step:
  assumes e: "effective cfg" and b: "boundary cfg st"
  shows "process_buffer cfg (c # rest) st = process_buffer cfg rest (emit cfg c st)"
proof (cases "line st = []")
  case False
  with b show ?thesis
    unfolding emit_def Let_def
    by (simp add: open_steps[OF e, unfolded Let_def] boundary_def)
next
  case True
  note pl = prefixLength_effective[OF e]
  have "process_buffer cfg (c # rest) st = process_buffer cfg (c # rest) (open_line cfg st)"
    using True b fill_prefix[OF e, of st c rest] by (simp add: open_line_def boundary_def)
  also have "\<dots> = process_buffer cfg rest (emit cfg c st)"
    unfolding emit_def Let_def using True b e pl
    by (subst open_steps[OF e, unfolded Let_def])
       (auto simp add: open_line_def boundary_def length_lead effective_def)
  finally show ?thesis .
qed

lemma boundary_emit:
  assumes e: "effective cfg" and b: "boundary cfg st"
  shows "boundary cfg (emit cfg c st)"
  using b e prefixLength_effective[OF e]
  by (auto simp add: boundary_def emit_def Let_def open_line_def write_line_def flush_check_def
      length_lead effective_def POSTFIX_LENGTH_def)

lemma process_buffer_fold:
  assumes e: "effective cfg"
  shows "boundary cfg st \<Longrightarrow> process_buffer cfg inp st = Some (fold (emit cfg) inp st)"
proof (induction inp arbitrary: st)
  case Nil
  show ?case by (simp add: pb_Nil)
next
  case (Cons c inp)
  show ?case
    using Cons.IH[OF boundary_emit[OF e Cons.prems]] by (simp add: macro_step[OF e Cons.prems])
qed

lemma boundary_fold:
  assumes e: "effective cfg"
  shows "boundary cfg st \<Longrightarrow> boundary cfg (fold (emit cfg) inp st)"
  by (induction inp arbitrary: st) (simp_all add: boundary_emit[OF e])

lemma read_loop_fold:
  assumes e: "effective cfg" and c: "0 < count"
  shows "boundary cfg st \<Longrightarrow> read_loop cfg count inp st = Some (fold (emit cfg) inp st)"
proof (induction inp arbitrary: st rule: length_induct)
  case (1 inp)
  show ?case
  proof (cases "inp = []")
    case True
    then show ?thesis by (simp add: read_loop.simps)
  next
    case False
    let ?mid = "fold (emit cfg) (take count inp) st"
    have "read_loop cfg count inp st = read_loop cfg count (drop count inp) ?mid"
      using False c by (subst read_loop.simps) (simp add: process_buffer_fold[OF e "1.prems"])
    also have "\<dots> = Some (fold (emit cfg) (drop count inp) ?mid)"
      using False c "1.IH" boundary_fold[OF e "1.prems"] by simp
    also have "fold (emit cfg) (drop count inp) ?mid = fold (emit cfg) (take count inp @ drop count inp) st"
      by (simp only: fold_append comp_apply)
    finally show ?thesis by simp
  qed
qed

section \<open>From bytes to lines\<close>

lemma render_snoc: "render cfg (gs @ [g]) = render cfg gs @ shown cfg (gs = []) g"
  by (cases gs) (simp_all add: render_def)

lemma fwrite_end:
  "pos f = length (contents f) \<Longrightarrow>
   fwrite bs f = \<lparr>contents = contents f @ bs, pos = length (contents f) + length bs\<rparr>"
  by (simp add: fwrite_def)

lemma take_POSTFIX: "take POSTFIX_LENGTH POSTFIX = POSTFIX"
  by (simp add: POSTFIX_def POSTFIX_LENGTH_def)

lemma length_escape: "length (escape c) = (if escapeRequired c then 2 else 1)"
  by (simp add: escape_def)

lemma escape_all_snoc: "escape_all (bs @ [c]) = escape_all bs @ escape c"
  by (simp add: escape_all_def)

lemma escape_all_Nil: "escape_all [] = []"
  by (simp add: escape_all_def)

lemma escape_all_eq_Nil: "escape_all bs = [] \<longleftrightarrow> bs = []"
  by (cases bs) (simp_all add: escape_all_def escape_def)

lemma room_effective:
  "effective cfg \<Longrightarrow> int (room cfg) = lineLength cfg - int (PREFIX_LENGTH + length (pName cfg)) - 3"
  using prefixLength_effective[of cfg] by (simp add: room_def effective_def)

lemma room_ge2: "effective cfg \<Longrightarrow> 2 \<le> room cfg"
  using prefixLength_effective[of cfg] by (auto simp add: room_def effective_def)

lemma write_line_conc:
  assumes "cur \<noteq> []"
  shows "write_line (conc cfg base (gs, cur)) = conc cfg base (gs @ [cur], [])"
  using assms
  by (simp add: write_line_def conc_def fwrite_end take_POSTFIX render_snoc shown_def)

lemma open_line_conc:
  "open_line cfg (conc cfg base (gs, [])) 
     = (conc cfg base (gs, []))\<lparr>prefixHeld := False, line := lead cfg (gs = []) @ [CHR 0x22]\<rparr>"
  by (simp add: open_line_def conc_def)

lemma flush_check_conc:
  assumes e: "effective cfg" and n: "cur \<noteq> []"
  shows "flush_check cfg ((conc cfg base (gs, []))
           \<lparr>prefixHeld := False, line := lead cfg (gs = []) @ [CHR 0x22] @ escape_all cur\<rparr>)
     = conc cfg base (if room cfg \<le> length (escape_all cur) then (gs @ [cur], []) else (gs, cur))"
  using n room_effective[OF e]
  by (simp add: flush_check_def write_line_def conc_def fwrite_end take_POSTFIX render_snoc
      shown_def length_lead POSTFIX_LENGTH_def POSTFIX_def)

lemma conc_line_update:
  assumes "cur \<noteq> []"
  shows "(conc cfg base (gs, cur))\<lparr>line := line (conc cfg base (gs, cur)) @ t\<rparr>
     = (conc cfg base (gs, []))
           \<lparr>prefixHeld := False, line := lead cfg (gs = []) @ [CHR 0x22] @ escape_all cur @ t\<rparr>"
  using assms by (simp add: conc_def)

lemma emit_alt:
  "emit cfg c st =
     (let st1 = (if line st = [] then open_line cfg st else st);
          st2 = (if escapeRequired c \<and> int (length (line st1)) > lineLength cfg - 4
                 then open_line cfg (write_line st1) else st1)
      in flush_check cfg (st2\<lparr>line := line st2 @ escape c\<rparr>))"
  by (simp add: emit_def escape_def Let_def)

lemma escape_all_single: "escape_all [c] = escape c"
  by (simp add: escape_all_def)

lemma opened_append:
  "((conc cfg base (gs, []))\<lparr>prefixHeld := False, line := l\<rparr>)
      \<lparr>line := line ((conc cfg base (gs, []))\<lparr>prefixHeld := False, line := l\<rparr>) @ t\<rparr>
   = (conc cfg base (gs, []))\<lparr>prefixHeld := False, line := l @ t\<rparr>"
  by simp

lemma pack_byte_alt:
  "pack_byte cfg c (gs, cur) =
     (if escapeRequired c \<and> cur \<noteq> [] \<and> room cfg < length (escape_all cur) + 2
      then (if room cfg \<le> length (escape c) then (gs @ [cur, [c]], []) else (gs @ [cur], [c]))
      else (if room cfg \<le> length (escape_all cur @ escape c)
            then (gs @ [cur @ [c]], []) else (gs, cur @ [c])))"
  by (auto simp add: pack_byte_def escape_all_snoc escape_all_single escape_all_Nil)

lemma emit_conc:
  assumes e: "effective cfg"
  shows "emit cfg c (conc cfg base (gs, cur)) = conc cfg base (pack_byte cfg c (gs, cur))"
proof (cases "cur = []")
  case True
  have l: "line (conc cfg base (gs, [])) = []" by (simp add: conc_def)
  have not_over: "\<not> int (length (line (open_line cfg (conc cfg base (gs, []))))) > lineLength cfg - 4"
    using room_effective[OF e] room_ge2[OF e] by (auto simp add: length_lead open_line_conc)
  have "emit cfg c (conc cfg base (gs, []))
      = flush_check cfg ((conc cfg base (gs, []))
           \<lparr>prefixHeld := False, line := lead cfg (gs = []) @ [CHR 0x22] @ escape_all [c]\<rparr>)"
    unfolding emit_alt Let_def using not_over
    by (simp only: l if_True simp_thms if_False open_line_conc opened_append escape_all_single
        append_assoc)
  also have "\<dots> = conc cfg base (if room cfg \<le> length (escape_all [c]) then (gs @ [[c]], []) else (gs, [c]))"
    by (rule flush_check_conc[OF e]) simp
  finally show ?thesis
    using True by (simp add: pack_byte_alt escape_all_single escape_all_Nil)
next
  case False
  have l: "line (conc cfg base (gs, cur)) \<noteq> []" using False by (simp add: conc_def)
  have len: "int (length (line (conc cfg base (gs, cur))))
      = int (PREFIX_LENGTH + length (pName cfg)) + 1 + int (length (escape_all cur))"
    using False by (simp add: conc_def length_lead)
  show ?thesis
  proof (cases "escapeRequired c \<and> room cfg < length (escape_all cur) + 2")
    case True
    then have over: "int (length (line (conc cfg base (gs, cur)))) > lineLength cfg - 4"
      using room_effective[OF e] len by linarith
    have "emit cfg c (conc cfg base (gs, cur))
      = flush_check cfg ((conc cfg base (gs @ [cur], []))
           \<lparr>prefixHeld := False, line := lead cfg (gs @ [cur] = []) @ [CHR 0x22] @ escape_all [c]\<rparr>)"
      unfolding emit_alt Let_def using over True l
      by (simp only: if_True simp_thms if_False write_line_conc[OF False] open_line_conc
          opened_append escape_all_single append_assoc)
    also have "\<dots> = conc cfg base (if room cfg \<le> length (escape_all [c])
         then ((gs @ [cur]) @ [[c]], []) else (gs @ [cur], [c]))"
      by (rule flush_check_conc[OF e]) simp
    finally show ?thesis
      using True False by (simp add: pack_byte_alt escape_all_single)
  next
    case no: False
    have not_over: "\<not> (escapeRequired c \<and> int (length (line (conc cfg base (gs, cur)))) > lineLength cfg - 4)"
      using no room_effective[OF e] len by auto
    have "emit cfg c (conc cfg base (gs, cur))
      = flush_check cfg ((conc cfg base (gs, cur))\<lparr>line := line (conc cfg base (gs, cur)) @ escape c\<rparr>)"
      unfolding emit_alt Let_def using not_over l
      by (simp only: if_True simp_thms if_False)
    also have "\<dots> = flush_check cfg ((conc cfg base (gs, []))
           \<lparr>prefixHeld := False, line := lead cfg (gs = []) @ [CHR 0x22] @ escape_all (cur @ [c])\<rparr>)"
      by (simp only: conc_line_update[OF False] escape_all_snoc)
    also have "\<dots> = conc cfg base (if room cfg \<le> length (escape_all (cur @ [c]))
         then (gs @ [cur @ [c]], []) else (gs, cur @ [c]))"
      by (rule flush_check_conc[OF e]) simp
    finally show ?thesis
      using no False by (auto simp add: pack_byte_alt escape_all_snoc)
  qed
qed

section \<open>The lines read back\<close>

lemma unescapedChar_escapedChar: "escapeRequired c \<Longrightarrow> unescapedChar (escapedChar c) = Some c"
  by (simp add: escapeRequired_def escapedChar_def unescapedChar_def split: if_splits)

lemma plain_not_special: "\<not> escapeRequired c \<Longrightarrow> c \<noteq> CHR 0x5C \<and> c \<noteq> CHR 0x22 \<and> c \<noteq> CHR 0x0A"
  by (auto simp add: escapeRequired_def)

lemma unescape_escape: "unescape (escape c @ rest) = map_option ((#) c) (unescape rest)"
  by (simp add: escape_def unescapedChar_escapedChar plain_not_special)

lemma unescape_escape_all_append:
  "unescape (escape_all bs @ rest) = map_option ((@) bs) (unescape rest)"
proof (induction bs)
  case Nil
  show ?case by (simp add: escape_all_def option.map_ident)
next
  case (Cons b bs)
  have "escape_all (b # bs) @ rest = escape b @ (escape_all bs @ rest)"
    by (simp add: escape_all_def)
  then show ?case
    by (simp add: unescape_escape Cons option.map_comp comp_def)
qed

lemma unescape_escape_all: "unescape (escape_all bs) = Some bs"
  using unescape_escape_all_append[of bs "[]"] by simp

lemma scan_escape: "scan_quoted (escape c @ rest) =
   map_option (\<lambda>(raw, others). (escape c @ raw, others)) (scan_quoted rest)"
  using plain_not_special[of c] by (auto simp add: escape_def)

lemma scan_escape_all:
  "scan_quoted (escape_all bs @ CHR 0x22 # rest) = Some (escape_all bs, rest)"
proof (induction bs)
  case Nil
  show ?case by (simp add: escape_all_def)
next
  case (Cons b bs)
  have "escape_all (b # bs) @ CHR 0x22 # rest = escape b @ (escape_all bs @ CHR 0x22 # rest)"
    by (simp add: escape_all_def)
  then show ?case
    by (simp add: scan_escape Cons)
qed

lemma physical_lines_shown:
  "physical_lines (PREFIX_LENGTH + length (pName cfg)) (shown cfg first g @ others) =
     map_option ((#) (lead cfg first, escape_all g))
       (physical_lines (PREFIX_LENGTH + length (pName cfg)) others)"
proof -
  let ?n = "PREFIX_LENGTH + length (pName cfg)"
  let ?text = "shown cfg first g @ others"
  have t: "?text = lead cfg first @ CHR 0x22 # escape_all g @ CHR 0x22 # CHR 0x0A # others"
    by (simp add: shown_def POSTFIX_def)
  have a: "?text \<noteq> []" "\<not> length ?text \<le> ?n" "?text ! ?n = CHR 0x22"
      "drop (Suc ?n) ?text = escape_all g @ CHR 0x22 # CHR 0x0A # others"
      "take ?n ?text = lead cfg first"
    unfolding t by (simp_all add: length_lead nth_append)
  have "physical_lines ?n ?text =
     (case scan_quoted (escape_all g @ CHR 0x22 # CHR 0x0A # others) of
           None \<Rightarrow> None
         | Some (raw, rest) \<Rightarrow>
             (case rest of
                [] \<Rightarrow> None
              | e # others \<Rightarrow>
                  if e = CHR 0x0A
                  then map_option ((#) (lead cfg first, raw)) (physical_lines ?n others)
                  else None))"
    by (subst physical_lines.simps) (simp only: a if_False simp_thms)
  then show ?thesis
    by (simp add: scan_escape_all)
qed

lemma physical_lines_rest:
  "physical_lines (PREFIX_LENGTH + length (pName cfg)) (concat (map (shown cfg False) gs)) =
     Some (map (\<lambda>g. (lead cfg False, escape_all g)) gs)"
proof (induction gs)
  case Nil
  show ?case by (subst physical_lines.simps) simp
next
  case (Cons g gs)
  then show ?case by (simp add: physical_lines_shown)
qed

lemma physical_lines_render:
  "physical_lines (PREFIX_LENGTH + length (pName cfg)) (render cfg gs) = Some (laid_out cfg gs)"
proof (cases gs)
  case Nil
  then show ?thesis by (subst physical_lines.simps) (simp add: render_def laid_out_def)
next
  case (Cons g rest)
  then show ?thesis
    by (simp add: render_def laid_out_def physical_lines_shown physical_lines_rest)
qed

lemma snd_laid_out: "map snd (laid_out cfg gs) = map escape_all gs"
  by (cases gs) (simp_all add: laid_out_def comp_def)

lemma length_laid_out: "length (laid_out cfg gs) = length gs"
  by (cases gs) (simp_all add: laid_out_def)

section \<open>The whole run\<close>

lemma flat_pack:
  "(case pack_byte cfg c A of (gs, cur) \<Rightarrow> concat gs @ cur) = (case A of (gs, cur) \<Rightarrow> concat gs @ cur) @ [c]"
  by (cases A) (simp add: pack_byte_alt)

lemma tidy_pack:
  assumes e: "effective cfg" and t: "tidy cfg A"
  shows "tidy cfg (pack_byte cfg c A)"
proof -
  obtain gs cur where A: "A = (gs, cur)" by (cases A)
  have r: "2 \<le> room cfg" by (rule room_ge2[OF e])
  show ?thesis
    using t r unfolding A pack_byte_alt tidy_def
    by (auto simp add: escape_all_snoc escape_all_single length_escape escape_all_Nil split: if_splits)
qed

lemma fold_pack_flat:
  "(case fold (pack_byte cfg) inp A of (gs, cur) \<Rightarrow> concat gs @ cur)
     = (case A of (gs, cur) \<Rightarrow> concat gs @ cur) @ inp"
proof (induction inp arbitrary: A)
  case Nil
  show ?case by simp
next
  case (Cons c inp)
  show ?case
    using Cons[of "pack_byte cfg c A"] flat_pack[of cfg c A] by simp
qed

lemma fold_pack_tidy:
  assumes e: "effective cfg"
  shows "tidy cfg A \<Longrightarrow> tidy cfg (fold (pack_byte cfg) inp A)"
  by (induction inp arbitrary: A) (simp_all add: tidy_pack[OF e])

lemma concat_groups: "concat (groups cfg inp) = inp"
  using fold_pack_flat[of cfg inp "([], [])"]
  by (auto simp add: groups_def split: prod.splits)

lemma groups_bound:
  assumes e: "effective cfg" and g: "g \<in> set (groups cfg inp)"
  shows "g \<noteq> [] \<and> length (escape_all g) \<le> room cfg"
proof -
  obtain gs cur where A: "fold (pack_byte cfg) inp ([], []) = (gs, cur)"
    by (cases "fold (pack_byte cfg) inp ([], [])")
  have "tidy cfg (fold (pack_byte cfg) inp ([], []))"
    by (rule fold_pack_tidy[OF e]) (simp add: tidy_def)
  then have "(\<forall>g \<in> set gs. g \<noteq> [] \<and> length (escape_all g) \<le> room cfg) \<and>
     (cur = [] \<or> length (escape_all cur) < room cfg)"
    by (simp add: tidy_def A)
  moreover have "g \<in> set gs \<or> (cur \<noteq> [] \<and> g = cur)"
    using g by (auto simp add: groups_def A split: if_splits)
  ultimately show ?thesis by auto
qed

lemma start_conc: "start cfg fopen_w = conc cfg (if bare cfg then [] else header cfg) ([], [])"
  by (simp add: start_def conc_def fopen_w_def fwrite_def render_def)

lemma boundary_start: "boundary cfg (start cfg out)"
  by (simp add: boundary_def start_def)

lemma fold_emit_conc:
  assumes e: "effective cfg"
  shows "fold (emit cfg) inp (conc cfg b A) = conc cfg b (fold (pack_byte cfg) inp A)"
proof (induction inp arbitrary: A)
  case Nil
  show ?case by simp
next
  case (Cons c inp)
  obtain gs cur where A: "A = (gs, cur)" by (cases A)
  show ?case
    using Cons[of "pack_byte cfg c A"] by (simp add: A emit_conc[OF e])
qed

lemma write_rest_conc:
  "sink (write_rest (conc cfg b (gs, cur))) =
     \<lparr>contents = b @ render cfg (if cur = [] then gs else gs @ [cur]),
      pos = length (b @ render cfg (if cur = [] then gs else gs @ [cur]))\<rparr>"
  "linesWritten (write_rest (conc cfg b (gs, cur))) =
     word_of_nat (length (if cur = [] then gs else gs @ [cur]))"
  by (simp_all add: write_rest_def conc_def fwrite_end take_POSTFIX render_snoc shown_def)

lemma literal_lines_run:
  assumes e: "effective cfg" and c: "0 < count"
  shows "\<exists>st. literal_lines cfg count inp fopen_w = Some st \<and>
     sink st = \<lparr>contents = (if bare cfg then [] else header cfg) @ render cfg (groups cfg inp),
               pos = length ((if bare cfg then [] else header cfg) @ render cfg (groups cfg inp))\<rparr> \<and>
     linesWritten st = word_of_nat (length (groups cfg inp))"
proof -
  let ?b = "if bare cfg then [] else header cfg"
  obtain gs cur where A: "fold (pack_byte cfg) inp ([], []) = (gs, cur)"
    by (cases "fold (pack_byte cfg) inp ([], [])")
  have "read_loop cfg count inp (start cfg fopen_w) = Some (fold (emit cfg) inp (start cfg fopen_w))"
    by (rule read_loop_fold[OF e c boundary_start])
  also have "fold (emit cfg) inp (start cfg fopen_w) = conc cfg ?b (gs, cur)"
    by (simp only: start_conc fold_emit_conc[OF e] A)
  finally have "literal_lines cfg count inp fopen_w = Some (write_rest (conc cfg ?b (gs, cur)))"
    by (simp add: literal_lines_def)
  moreover have "groups cfg inp = (if cur = [] then gs else gs @ [cur])"
    by (simp add: groups_def A)
  ultimately show ?thesis
    using write_rest_conc[of cfg ?b gs cur] by simp
qed

lemma literal_text_run:
  assumes e: "effective cfg" and c: "0 < count"
  shows "\<exists>st. literal_lines cfg count inp fopen_w = Some st \<and>
     literal_text cfg st = render cfg (groups cfg inp) \<and>
     linesWritten st = word_of_nat (length (groups cfg inp))"
  using literal_lines_run[OF e c, of inp] by (auto simp add: literal_text_def)

lemma nat_prefixLength:
  "effective cfg \<Longrightarrow> nat (prefixLength cfg) = PREFIX_LENGTH + length (pName cfg)"
  by (simp add: prefixLength_effective)

lemma physical_lines_groups:
  assumes e: "effective cfg"
  shows "physical_lines (nat (prefixLength cfg)) (render cfg gs) = Some (laid_out cfg gs)"
  by (simp only: nat_prefixLength[OF e] physical_lines_render)

lemma escape_all_concat: "concat (map escape_all gs) = escape_all (concat gs)"
  by (induction gs) (simp_all add: escape_all_def)

section \<open>Lines, chunks and pending escapes\<close>

lemma effective_example: "effective example_config"
  by (simp add: effective_def example_config_def prefixLength_def size_to_int_def
      PREFIX_LENGTH_def)

lemma escape_table_escape: "escape c = table_escape c"
  by (simp add: escape_def table_escape_def escape_table_def escapeRequired_def escapedChar_def)

lemma whole_laid_out: "concat (map whole (laid_out cfg gs)) = render cfg gs"
proof (cases gs)
  case Nil
  then show ?thesis by (simp add: laid_out_def render_def)
next
  case (Cons g rest)
  have "map whole (map (\<lambda>g. (lead cfg False, escape_all g)) rest) = map (shown cfg False) rest"
    by (simp add: whole_def shown_def)
  moreover have "whole (lead cfg True, escape_all g) = shown cfg True g"
    by (simp add: whole_def shown_def)
  ultimately show ?thesis
    using Cons by (simp add: laid_out_def render_def del: map_map)
qed

lemma laid_out_bound:
  assumes e: "effective cfg" and l: "l \<in> set (laid_out cfg (groups cfg inp))"
  shows "int (length (whole l)) \<le> lineLength cfg"
proof -
  obtain first g where g: "g \<in> set (groups cfg inp)" and l': "l = (lead cfg first, escape_all g)"
    using l by (cases "groups cfg inp") (auto simp add: laid_out_def)
  have "length (escape_all g) \<le> room cfg"
    using groups_bound[OF e g] by simp
  then show ?thesis
    using room_effective[OF e]
    by (simp add: l' whole_def length_lead POSTFIX_def)
qed

lemma length_groups_le:
  assumes e: "effective cfg"
  shows "length (groups cfg inp) \<le> length inp"
proof -
  have "length gs \<le> length (concat gs)" if "\<forall>g \<in> set gs. g \<noteq> []" for gs :: "string list"
    using that
  proof (induction gs)
    case Nil
    show ?case by simp
  next
    case (Cons g gs)
    then show ?case by (cases g) auto
  qed
  from this[of "groups cfg inp"] show ?thesis
    using groups_bound[OF e] by (simp add: concat_groups)
qed

lemma fst_laid_out:
  "map fst (laid_out cfg gs) =
     (if gs = [] then [] else lead cfg True # replicate (length gs - 1) (lead cfg False))"
  by (cases gs) (simp_all add: laid_out_def comp_def map_replicate_const)

lemma groups_Nil: "groups cfg inp = [] \<longleftrightarrow> inp = []"
proof
  assume "groups cfg inp = []"
  then show "inp = []" using concat_groups[of cfg inp] by simp
next
  assume "inp = []"
  then show "groups cfg inp = []" by (simp add: groups_def)
qed

lemma parse_sized_run:
  assumes e: "effective cfg" and c: "0 < count"
  shows "\<exists>st. literal_lines cfg count inp fopen_w = Some st \<and>
     parse_sized count True True cfg inp fopen_w
       = Some (sint (linesWritten st), write_endfix cfg (sink st))"
  using literal_lines_run[OF e c, of inp] by (auto simp add: parse_sized_def)

lemma read_loop_any:
  assumes e: "effective cfg" and b: "boundary cfg st" and c: "0 < count \<or> inp = []"
  shows "read_loop cfg count inp st = Some (fold (emit cfg) inp st)"
proof (cases "inp = []")
  case True
  then show ?thesis by (simp add: read_loop.simps)
next
  case False
  with c show ?thesis by (simp add: read_loop_fold[OF e _ b])
qed

lemma parse_sized_any:
  assumes e: "effective cfg" and c: "0 < count \<or> inp = []"
  shows "parse_sized count b p cfg inp out =
     (if b \<and> p then
        Some (sint (linesWritten (write_rest (fold (emit cfg) inp (start cfg out)))),
              write_endfix cfg (sink (write_rest (fold (emit cfg) inp (start cfg out)))))
      else Some (0, out))"
  by (simp add: parse_sized_def literal_lines_def read_loop_any[OF e boundary_start c])

lemma addEscaped_flush_check: "addEscaped (flush_check cfg st) = addEscaped st"
  by (simp add: flush_check_def write_line_def)

lemma iteration_pending:
  assumes "addEscaped st \<in> {0, 1, 2}"
    and "addEscaped st \<noteq> 0 \<longrightarrow> escapeRequired c"
    and "iteration cfg c st = (st', advanced)"
  shows "addEscaped st' \<in> {0, 1, 2} \<and> (if advanced then addEscaped st' = 0
           else addEscaped st' \<noteq> 0 \<longrightarrow> escapeRequired c)"
  using assms
  by (auto simp add: iteration_def Let_def addEscaped_flush_check split: if_splits)

lemma iterations_pending:
  "addEscaped st \<in> {0, 1, 2} \<Longrightarrow>
   (addEscaped st \<noteq> 0 \<longrightarrow> inp \<noteq> [] \<and> escapeRequired (hd inp)) \<Longrightarrow>
   iterations cfg n inp st = (rest, s) \<Longrightarrow>
   addEscaped s \<in> {0, 1, 2} \<and> (addEscaped s \<noteq> 0 \<longrightarrow> rest \<noteq> [] \<and> escapeRequired (hd rest))"
proof (induction n arbitrary: inp st)
  case 0
  then show ?case by simp
next
  case (Suc n)
  show ?case
  proof (cases inp)
    case Nil
    then have "rest = [] \<and> s = st" using Suc.prems(3) by simp
    moreover have "addEscaped st = 0" using Suc.prems(2) Nil by auto
    ultimately show ?thesis by simp
  next
    case (Cons c tail)
    obtain st' advanced where it: "iteration cfg c st = (st', advanced)"
      by (cases "iteration cfg c st")
    have q: "addEscaped st \<noteq> 0 \<longrightarrow> escapeRequired c"
      using Suc.prems(2) Cons by simp
    note p = iteration_pending[OF Suc.prems(1) q it]
    let ?next = "if advanced then tail else inp"
    have run: "iterations cfg n ?next st' = (rest, s)"
      using Suc.prems(3) Cons it by (cases advanced) simp_all
    have "addEscaped st' \<noteq> 0 \<longrightarrow> ?next \<noteq> [] \<and> escapeRequired (hd ?next)"
    proof (cases advanced)
      case True
      with p show ?thesis by simp
    next
      case False
      with p Cons show ?thesis by simp
    qed
    with p show ?thesis
      by (intro Suc.IH[OF _ _ run]) simp_all
  qed
qed

lemma process_buffer_boundary:
  assumes e: "effective cfg" and b: "boundary cfg st"
  shows "\<exists>st'. process_buffer cfg buffer st = Some st' \<and> boundary cfg st'"
  using process_buffer_fold[OF e b] boundary_fold[OF e b] by blast

section \<open>Full lines and what one byte writes\<close>

lemma filled_pack:
  assumes f: "filled cfg A"
  shows "filled cfg (pack_byte cfg c A)"
proof -
  obtain gs cur where A: "A = (gs, cur)" by (cases A)
  show ?thesis
    using f unfolding A pack_byte_alt filled_def
    by (auto simp add: escape_all_snoc escape_all_single split: if_splits)
qed

lemma fold_pack_filled: "filled cfg A \<Longrightarrow> filled cfg (fold (pack_byte cfg) inp A)"
  by (induction inp arbitrary: A) (simp_all add: filled_pack)

lemma groups_filled:
  assumes g: "g \<in> set (butlast (groups cfg inp))"
  shows "room cfg \<le> length (escape_all g) + 1"
proof -
  obtain gs cur where A: "fold (pack_byte cfg) inp ([], []) = (gs, cur)"
    by (cases "fold (pack_byte cfg) inp ([], [])")
  have "filled cfg (fold (pack_byte cfg) inp ([], []))"
    by (rule fold_pack_filled) (simp add: filled_def)
  then have all: "\<forall>g \<in> set gs. room cfg \<le> length (escape_all g) + 1"
    by (simp add: filled_def A)
  have "g \<in> set gs"
  proof (cases "cur = []")
    case True
    then have "groups cfg inp = gs" by (simp add: groups_def A)
    with g show ?thesis by (auto dest: in_set_butlastD)
  next
    case False
    then have "groups cfg inp = gs @ [cur]" by (simp add: groups_def A)
    with g show ?thesis by simp
  qed
  with all show ?thesis by blast
qed

lemma butlast_laid_out:
  assumes "l \<in> set (butlast (laid_out cfg gs))"
  shows "\<exists>first g. g \<in> set (butlast gs) \<and> l = (lead cfg first, escape_all g)"
proof (cases gs)
  case Nil
  with assms show ?thesis by (simp add: laid_out_def)
next
  case (Cons g rest)
  show ?thesis
  proof (cases "rest = []")
    case True
    with assms Cons show ?thesis by (simp add: laid_out_def)
  next
    case False
    then have "butlast (laid_out cfg gs) =
        (lead cfg True, escape_all g) # map (\<lambda>g. (lead cfg False, escape_all g)) (butlast rest)"
      using Cons by (simp add: laid_out_def map_butlast)
    moreover have "butlast gs = g # butlast rest"
      using Cons False by simp
    ultimately show ?thesis using assms by auto
  qed
qed

lemma laid_out_filled:
  assumes e: "effective cfg" and l: "l \<in> set (butlast (laid_out cfg (groups cfg inp)))"
  shows "lineLength cfg - 1 \<le> int (length (whole l))"
proof -
  obtain first g where g: "g \<in> set (butlast (groups cfg inp))"
      and l': "l = (lead cfg first, escape_all g)"
    using butlast_laid_out[OF l] by blast
  have "room cfg \<le> length (escape_all g) + 1"
    by (rule groups_filled[OF g])
  then show ?thesis
    using room_effective[OF e]
    by (simp add: l' whole_def length_lead POSTFIX_def)
qed

lemma written_flush_check:
  assumes "pos (sink s) = length (contents (sink s))"
  shows "\<exists>post. written (flush_check cfg s) = written s @ post \<and> post \<in> {[], POSTFIX} \<and>
     pos (sink (flush_check cfg s)) = length (contents (sink (flush_check cfg s)))"
  using assms
  by (simp add: flush_check_def write_line_def written_def fwrite_end take_POSTFIX)

lemma written_open_line:
  assumes "line s = []"
  shows "written (open_line cfg s) = written s @ lead cfg (prefixHeld s) @ [CHR 0x22]"
    and "sink (open_line cfg s) = sink s"
  using assms by (simp_all add: open_line_def written_def)

lemma written_write_line:
  assumes "pos (sink s) = length (contents (sink s))"
  shows "written (write_line s) = written s @ POSTFIX"
    and "pos (sink (write_line s)) = length (contents (sink (write_line s)))"
    and "line (write_line s) = []" and "prefixHeld (write_line s) = prefixHeld s"
  using assms by (simp_all add: write_line_def written_def fwrite_end take_POSTFIX)

lemma written_append:
  "written (s\<lparr>line := line s @ t\<rparr>) = written s @ t" "sink (s\<lparr>line := line s @ t\<rparr>) = sink s"
  by (simp_all add: written_def)

lemma written_emit:
  assumes e: "effective cfg" and b: "boundary cfg st"
    and a: "pos (sink st) = length (contents (sink st))"
  shows "\<exists>pre post.
     written (emit cfg c st) = written st @ pre @ escape c @ post \<and>
     pre \<in> {[], lead cfg (prefixHeld st) @ [CHR 0x22],
             POSTFIX @ lead cfg (prefixHeld st) @ [CHR 0x22]} \<and>
     post \<in> {[], POSTFIX} \<and>
     pos (sink (emit cfg c st)) = length (contents (sink (emit cfg c st)))"
proof -
  let ?st1 = "if line st = [] then open_line cfg st else st"
  let ?st2 = "if escapeRequired c \<and> int (length (line ?st1)) > lineLength cfg - 4
                 then open_line cfg (write_line ?st1) else ?st1"
  have em: "emit cfg c st = flush_check cfg (?st2\<lparr>line := line ?st2 @ escape c\<rparr>)"
    by (simp add: emit_alt Let_def)
  have "\<exists>pre. written ?st2 = written st @ pre \<and>
     pre \<in> {[], lead cfg (prefixHeld st) @ [CHR 0x22],
             POSTFIX @ lead cfg (prefixHeld st) @ [CHR 0x22]} \<and>
     pos (sink ?st2) = length (contents (sink ?st2))"
  proof (cases "line st = []")
    case True
    have "\<not> int (length (line (open_line cfg st))) > lineLength cfg - 4"
      using room_effective[OF e] room_ge2[OF e] by (auto simp add: open_line_def length_lead)
    then show ?thesis
      using True a by (simp add: written_open_line)
  next
    case False
    show ?thesis
    proof (cases "escapeRequired c \<and> int (length (line st)) > lineLength cfg - 4")
      case True
      then show ?thesis
        using False a by (simp add: written_open_line written_write_line)
    next
      case no: False
      then show ?thesis using False a by auto
    qed
  qed
  then obtain pre where pre: "written ?st2 = written st @ pre"
     "pre \<in> {[], lead cfg (prefixHeld st) @ [CHR 0x22],
             POSTFIX @ lead cfg (prefixHeld st) @ [CHR 0x22]}"
     "pos (sink ?st2) = length (contents (sink ?st2))"
    by blast
  let ?st3 = "?st2\<lparr>line := line ?st2 @ escape c\<rparr>"
  have "pos (sink ?st3) = length (contents (sink ?st3))"
    using pre(3) by (simp only: written_append)
  from written_flush_check[OF this, of cfg]
  obtain post where post: "written (flush_check cfg ?st3) = written ?st3 @ post"
     "post \<in> {[], POSTFIX}"
     "pos (sink (flush_check cfg ?st3)) = length (contents (sink (flush_check cfg ?st3)))"
    by blast
  have "written (emit cfg c st) = written st @ pre @ escape c @ post"
    by (simp only: em post(1) written_append pre(1) append_assoc)
  then show ?thesis
    using pre(2) post(2,3) unfolding em by blast
qed

lemma iterations_of_process_buffer:
  assumes run: "process_buffer cfg inp st = Some st'"
  shows "\<exists>n. iterations cfg n inp st = ([], st')"
proof (rule process_buffer.raw_induct
    [where P = "\<lambda>cfg inp st y. \<exists>n. iterations cfg n inp st = ([], y)", OF _ run])
  fix f k xs s t
  assume IH: "\<And>a b d y. f a b d = Some y \<Longrightarrow> \<exists>n. iterations a n b d = ([], y)"
    and body: "(case xs of
        [] \<Rightarrow> Some s
      | c # rest \<Rightarrow>
          (case iteration k c s of
             (st', advanced) \<Rightarrow> f k (if advanced then rest else xs) st')) = Some t"
  show "\<exists>n. iterations k n xs s = ([], t)"
  proof (cases xs)
    case Nil
    with body have "t = s" by simp
    then have "iterations k 0 xs s = ([], t)" using Nil by simp
    then show ?thesis ..
  next
    case (Cons c rest)
    obtain s1 adv where it: "iteration k c s = (s1, adv)"
      by (cases "iteration k c s")
    with body Cons have "f k (if adv then rest else xs) s1 = Some t" by simp
    from IH[OF this] obtain n where "iterations k n (if adv then rest else xs) s1 = ([], t)"
      by blast
    then have "iterations k (Suc n) xs s = ([], t)"
      using Cons it by (cases adv) simp_all
    then show ?thesis ..
  qed
qed

section \<open>The line length that \<open>main\<close> chooses\<close>

lemma int_to_size_small: "0 \<le> i \<Longrightarrow> i < 2 ^ 64 \<Longrightarrow> int_to_size i = nat i"
  unfolding int_to_size_def
  by (simp add: unsigned_of_int take_bit_int_eq_self)

lemma checked_length_max:
  assumes n: "PREFIX_LENGTH + length name + 5 < 2 ^ 31"
    and r: "req < 2 ^ 31"
  shows "too_short name req \<longleftrightarrow> req < int (16 + length name + 5)"
    and "checked_length name req = max req (int (16 + length name + 5))"
proof -
  have m: "size_to_int (PREFIX_LENGTH + length name + 5) = int (16 + length name + 5)"
    using n by (simp add: size_to_int_small PREFIX_LENGTH_def)
  have "0 \<le> req \<Longrightarrow> int_to_size req = nat req"
    using r by (intro int_to_size_small) auto
  then show t: "too_short name req \<longleftrightarrow> req < int (16 + length name + 5)"
    by (cases "0 \<le> req") (auto simp add: too_short_def PREFIX_LENGTH_def)
  show "checked_length name req = max req (int (16 + length name + 5))"
    unfolding checked_length_def m t by (simp add: max_def)
qed

lemma main_with_names:
  assumes "argInput a = Some inName"
    and "openInput p inName = Some inp" and "nameOk p"
    and "(case argName a of None \<Rightarrow> default_name inName | Some n \<Rightarrow> Some n) = Some name"
    and "argOutput a = Some outName"
  shows "main a p =
     write_output a p inName inp name
       (if too_short name (argLength a)
        then [UsingLineLength (size_to_int (PREFIX_LENGTH + length name + 5)) (argLength a)]
        else [])
       outName"
  using assms by (simp add: main_def Let_def)

lemma effective_checked:
  assumes n: "PREFIX_LENGTH + length name + 5 < 2 ^ 31 - 1" and r: "req < 2 ^ 31 - 1"
  shows "effective \<lparr>pInputFileName = i, pExeFileName = x, bare = b, pName = name,
           lineLength = max req (int (16 + length name + 5))\<rparr>"
  using n r by (simp add: effective_def prefixLength_def size_to_int_small PREFIX_LENGTH_def)

lemma default_name_example: "default_name ''in.txt'' = Some ''in''"
  by code_simp

lemma main_resolved:
  assumes "argInput a = Some inName"
    and "openInput p inName = Some inp" and "nameOk p"
    and "(case argName a of None \<Rightarrow> default_name inName | Some n \<Rightarrow> Some n) = Some name"
    and "(case argOutput a of
            Some given \<Rightarrow> Some given
          | None \<Rightarrow>
              (if outputNameOk p
               then map_option (\<lambda>d. d @ EXT_SEPARATOR @ OUTPUT_FILE_EXTENSION)
                      (default_name inName)
               else None)) = Some outName"
  shows "main a p =
     write_output a p inName inp name
       (if too_short name (argLength a)
        then [UsingLineLength (size_to_int (PREFIX_LENGTH + length name + 5)) (argLength a)]
        else [])
       outName"
proof (cases "argOutput a")
  case (Some given)
  with assms show ?thesis by (simp add: main_def Let_def)
next
  case None
  with assms(5) obtain d where "outputNameOk p" "default_name inName = Some d"
     "outName = d @ EXT_SEPARATOR @ OUTPUT_FILE_EXTENSION"
    by (auto split: if_splits)
  with assms(1-4) None show ?thesis by (simp add: main_def Let_def)
qed

section \<open>The claims\<close>

text \<open>
  The theorems below are about \<open>literal_lines\<close>, the header and the lines that
  \<open>parse\<close> writes through its flush path, on a fresh output file, for a configuration
  that is \<open>effective\<close> (which is what \<open>main\<close> passes, see C8) and
  for reads of any positive size. The lines are read back from the output after the
  header, before lines 242-248 overwrite the last postfix.
\<close>

text \<open>
  C1 (round trip). For every input byte sequence, the contents between the quotes of
  the literal lines that are written, concatenated and read as C escape sequences, are
  the input bytes.
\<close>

theorem roundtrip:
  assumes e: "effective cfg" and c: "0 < count"
  shows "\<exists>st ls. literal_lines cfg count inp fopen_w = Some st \<and>
     physical_lines (nat (prefixLength cfg)) (literal_text cfg st) = Some ls \<and>
     unescape (concat (map snd ls)) = Some inp"
proof -
  obtain st where st: "literal_lines cfg count inp fopen_w = Some st"
      "literal_text cfg st = render cfg (groups cfg inp)"
    using literal_text_run[OF e c, of inp] by blast
  let ?ls = "laid_out cfg (groups cfg inp)"
  have "physical_lines (nat (prefixLength cfg)) (literal_text cfg st) = Some ?ls"
    by (simp only: st physical_lines_groups[OF e])
  moreover have "unescape (concat (map snd ?ls)) = Some inp"
    by (simp add: snd_laid_out escape_all_concat concat_groups unescape_escape_all)
  ultimately show ?thesis using st(1) by blast
qed

theorem roundtrip_witness:
  "effective example_config \<and> (0::nat) < 120 \<and>
   (\<exists>st ls. literal_lines example_config 120 ''a?b'' fopen_w = Some st \<and>
     physical_lines (nat (prefixLength example_config)) (literal_text example_config st) = Some ls \<and>
     unescape (concat (map snd ls)) = Some ''a?b'')"
  using roundtrip[where cfg = example_config and count = 120 and inp = "''a?b''",
      OF effective_example]
    effective_example
  by simp

text \<open>
  C2 (escape charset). The contents of the literal lines, concatenated, are the input
  with each of the twelve bytes of \<open>escape_table\<close> replaced by a backslash and its
  mnemonic, and every other byte copied as it is; and for every byte \<open>c\<close>, what
  \<open>escapeRequired\<close> and \<open>escapedChar\<close> make of it is what the table says.
\<close>

theorem escape_charset:
  assumes e: "effective cfg" and c: "0 < count"
  shows "\<exists>st ls. literal_lines cfg count inp fopen_w = Some st \<and>
     physical_lines (nat (prefixLength cfg)) (literal_text cfg st) = Some ls \<and>
     concat (map snd ls) = concat (map table_escape inp) \<and>
     (if escapeRequired c then [CHR 0x5C, escapedChar c] else [c]) = table_escape c"
proof -
  obtain st where st: "literal_lines cfg count inp fopen_w = Some st"
      "literal_text cfg st = render cfg (groups cfg inp)"
    using literal_text_run[OF e c, of inp] by blast
  let ?ls = "laid_out cfg (groups cfg inp)"
  have "physical_lines (nat (prefixLength cfg)) (literal_text cfg st) = Some ?ls"
    by (simp only: st physical_lines_groups[OF e])
  moreover have "escape = table_escape"
    by (rule ext) (rule escape_table_escape)
  then have "escape_all inp = concat (map table_escape inp)"
    by (simp add: escape_all_def)
  then have "concat (map snd ?ls) = concat (map table_escape inp)"
    by (simp add: snd_laid_out escape_all_concat concat_groups)
  moreover have "(if escapeRequired c then [CHR 0x5C, escapedChar c] else [c]) = table_escape c"
    using escape_table_escape[of c] by (simp add: escape_def)
  ultimately show ?thesis using st(1) by blast
qed

theorem escape_charset_witness:
  "effective example_config \<and> (0::nat) < 120 \<and>
   (\<exists>st ls. literal_lines example_config 120 ''a?b'' fopen_w = Some st \<and>
     physical_lines (nat (prefixLength example_config)) (literal_text example_config st) = Some ls \<and>
     concat (map snd ls) = [CHR ''a'', CHR 0x5C, CHR ''?'', CHR ''b''] \<and>
     (if escapeRequired (CHR ''?'') then [CHR 0x5C, escapedChar (CHR ''?'')] else [CHR ''?''])
       = [CHR 0x5C, CHR ''?''])"
  using escape_charset[where cfg = example_config and count = 120 and inp = "''a?b''"
      and c = "CHR ''?''", OF effective_example]
    effective_example
  by (simp add: table_escape_def escape_table_def)

text \<open>
  C3 (line count and length). The output after the header consists of exactly the
  physical lines \<open>ls\<close>, at most one for each input byte; their number is the value
  that \<open>parse\<close> returns, as long as it is one that the \<open>int\<close> counter can hold; and
  no line, with its prefix or padding, both quotes and the newline, is longer than the
  line length.
\<close>

theorem line_count_and_length:
  assumes e: "effective cfg" and c: "0 < count"
  shows "\<exists>st ls n f. literal_lines cfg count inp fopen_w = Some st \<and>
     parse_sized count True True cfg inp fopen_w = Some (n, f) \<and>
     physical_lines (nat (prefixLength cfg)) (literal_text cfg st) = Some ls \<and>
     concat (map whole ls) = literal_text cfg st \<and>
     length ls \<le> length inp \<and>
     (length ls < 2 ^ 31 \<longrightarrow> n = int (length ls)) \<and>
     (\<forall>l \<in> set ls. int (length (whole l)) \<le> lineLength cfg)"
proof -
  obtain st where st: "literal_lines cfg count inp fopen_w = Some st"
      "literal_text cfg st = render cfg (groups cfg inp)"
      "linesWritten st = word_of_nat (length (groups cfg inp))"
    using literal_text_run[OF e c, of inp] by blast
  let ?ls = "laid_out cfg (groups cfg inp)"
  have "physical_lines (nat (prefixLength cfg)) (literal_text cfg st) = Some ?ls"
    by (simp only: st physical_lines_groups[OF e])
  moreover have "parse_sized count True True cfg inp fopen_w
      = Some (sint (linesWritten st), write_endfix cfg (sink st))"
    by (simp add: parse_sized_def st)
  moreover have "concat (map whole ?ls) = literal_text cfg st"
    by (simp add: whole_laid_out st)
  moreover have "length ?ls \<le> length inp"
    by (simp add: length_laid_out length_groups_le[OF e])
  moreover have "length ?ls < 2 ^ 31 \<longrightarrow> sint (linesWritten st) = int (length ?ls)"
    using size_to_int_small[of "length (groups cfg inp)"]
    by (simp add: st length_laid_out size_to_int_def)
  moreover have "\<forall>l \<in> set ?ls. int (length (whole l)) \<le> lineLength cfg"
    using laid_out_bound[OF e] by blast
  ultimately show ?thesis using st(1) by blast
qed

theorem line_count_and_length_witness:
  "effective example_config \<and> (0::nat) < 120 \<and>
   (\<exists>st ls n f. literal_lines example_config 120 ''a?b'' fopen_w = Some st \<and>
     parse_sized 120 True True example_config ''a?b'' fopen_w = Some (n, f) \<and>
     physical_lines (nat (prefixLength example_config)) (literal_text example_config st) = Some ls \<and>
     concat (map whole ls) = literal_text example_config st \<and>
     length ls \<le> length ''a?b'' \<and>
     n = int (length ls) \<and>
     (\<forall>l \<in> set ls. int (length (whole l)) \<le> lineLength example_config))"
proof -
  obtain st ls n f where w: "literal_lines example_config 120 ''a?b'' fopen_w = Some st"
     "parse_sized 120 True True example_config ''a?b'' fopen_w = Some (n, f)"
     "physical_lines (nat (prefixLength example_config)) (literal_text example_config st) = Some ls"
     "concat (map whole ls) = literal_text example_config st"
     "length ls \<le> length ''a?b''"
     "length ls < 2 ^ 31 \<longrightarrow> n = int (length ls)"
     "\<forall>l \<in> set ls. int (length (whole l)) \<le> lineLength example_config"
    using line_count_and_length[where cfg = example_config and count = 120 and inp = "''a?b''",
      OF effective_example zero_less_numeral]
    by blast
  from w(5) have "length ls < 2 ^ 31" by simp
  with w(6) have n: "n = int (length ls)" by simp
  have "\<exists>st ls n f. literal_lines example_config 120 ''a?b'' fopen_w = Some st \<and>
     parse_sized 120 True True example_config ''a?b'' fopen_w = Some (n, f) \<and>
     physical_lines (nat (prefixLength example_config)) (literal_text example_config st) = Some ls \<and>
     concat (map whole ls) = literal_text example_config st \<and>
     length ls \<le> length ''a?b'' \<and>
     n = int (length ls) \<and>
     (\<forall>l \<in> set ls. int (length (whole l)) \<le> lineLength example_config)"
    using w(1-5,7) n by blast
  then show ?thesis using effective_example by simp
qed

text \<open>
  C4 (chunk-boundary invariance). Reading the input one byte at a time, seven bytes at
  a time, 120 bytes at a time as the source does, or all at once gives the same output
  stream and the same returned count, and the run returns.
\<close>

theorem chunk_invariance:
  assumes e: "effective cfg"
  shows "parse_sized 1 b p cfg inp out = parse_sized (length inp) b p cfg inp out \<and>
     parse_sized 7 b p cfg inp out = parse_sized (length inp) b p cfg inp out \<and>
     parse b p cfg inp out = parse_sized (length inp) b p cfg inp out \<and>
     (\<exists>n f. parse_sized (length inp) b p cfg inp out = Some (n, f))"
proof -
  have w: "0 < length inp \<or> inp = []" by auto
  have "parse_sized 1 b p cfg inp out = parse_sized (length inp) b p cfg inp out"
    by (simp only: parse_sized_any[OF e w] parse_sized_any[OF e disjI1[OF zero_less_one]])
  moreover have "parse_sized 7 b p cfg inp out = parse_sized (length inp) b p cfg inp out"
    by (simp only: parse_sized_any[OF e w] parse_sized_any[OF e disjI1[OF zero_less_numeral]])
  moreover have "parse b p cfg inp out = parse_sized (length inp) b p cfg inp out"
    unfolding parse_def
    by (simp only: parse_sized_any[OF e w] parse_sized_any[OF e disjI1[OF zero_less_numeral]])
  moreover have "\<exists>n f. parse_sized (length inp) b p cfg inp out = Some (n, f)"
    by (simp add: parse_sized_any[OF e w])
  ultimately show ?thesis by blast
qed

theorem chunk_invariance_witness:
  "effective example_config \<and>
   parse_sized 1 True True example_config ''a?b'' fopen_w =
     parse_sized (length ''a?b'') True True example_config ''a?b'' fopen_w \<and>
   parse_sized 7 True True example_config ''a?b'' fopen_w =
     parse_sized (length ''a?b'') True True example_config ''a?b'' fopen_w \<and>
   parse True True example_config ''a?b'' fopen_w =
     parse_sized (length ''a?b'') True True example_config ''a?b'' fopen_w \<and>
   (\<exists>n f. parse_sized (length ''a?b'') True True example_config ''a?b'' fopen_w = Some (n, f))"
  using chunk_invariance[where cfg = example_config and b = True and p = True
      and inp = "''a?b''" and out = fopen_w, OF effective_example]
    effective_example
  by simp

text \<open>
  C5 (opening quote and line starts), as claimed: the opening quote is written once
  per run and every line after the first begins at column 0 with literal content. It
  fails: with the name \<open>x\<close> and line length 22, the input \<open>abc\<close> gives a second line
  of 17 blanks, an opening quote of its own, and then the content.
\<close>

theorem line_starts_counterexample:
  "map_option (literal_text example_config) (literal_lines example_config 120 ''abc'' fopen_w) =
     Some (''const char x[] = '' @ [CHR 0x22] @ ''ab'' @ [CHR 0x22, CHR 0x0A] @
           ''                 '' @ [CHR 0x22] @ ''c'' @ [CHR 0x22, CHR 0x0A])"
  by code_simp

text \<open>
  C5 as amended. The prefix stands once, at the start of the first line; every later
  line starts with \<open>prefixLength\<close> blanks; in every line an opening quote follows at
  offset \<open>prefixLength\<close> (by \<open>physical_lines\<close>), and then the content.
\<close>

theorem line_starts:
  assumes e: "effective cfg" and c: "0 < count"
  shows "\<exists>st ls. literal_lines cfg count inp fopen_w = Some st \<and>
     physical_lines (nat (prefixLength cfg)) (literal_text cfg st) = Some ls \<and>
     concat (map whole ls) = literal_text cfg st \<and>
     map fst ls =
       (if inp = [] then []
        else PREFIX (pName cfg) #
             replicate (length ls - 1) (replicate (nat (prefixLength cfg)) (CHR '' '')))"
proof -
  obtain st where st: "literal_lines cfg count inp fopen_w = Some st"
      "literal_text cfg st = render cfg (groups cfg inp)"
    using literal_text_run[OF e c, of inp] by blast
  let ?ls = "laid_out cfg (groups cfg inp)"
  have "physical_lines (nat (prefixLength cfg)) (literal_text cfg st) = Some ?ls"
    by (simp only: st physical_lines_groups[OF e])
  moreover have "concat (map whole ?ls) = literal_text cfg st"
    by (simp add: whole_laid_out st)
  moreover have "map fst ?ls =
       (if inp = [] then []
        else PREFIX (pName cfg) #
             replicate (length ?ls - 1) (replicate (nat (prefixLength cfg)) (CHR '' '')))"
    by (simp add: fst_laid_out groups_Nil length_laid_out lead_def nat_prefixLength[OF e])
  ultimately show ?thesis using st(1) by blast
qed

theorem line_starts_witness:
  "effective example_config \<and> (0::nat) < 120 \<and>
   (\<exists>st ls. literal_lines example_config 120 ''abc'' fopen_w = Some st \<and>
     physical_lines (nat (prefixLength example_config)) (literal_text example_config st) = Some ls \<and>
     concat (map whole ls) = literal_text example_config st \<and>
     map fst ls = PREFIX (pName example_config) #
        replicate (length ls - 1) (replicate (nat (prefixLength example_config)) (CHR '' '')))"
  using line_starts[where cfg = example_config and count = 120 and inp = "''abc''",
      OF effective_example]
    effective_example
  by simp

text \<open>
  C6 (empty input), evaluated: on an empty input \<open>parse\<close> writes no declaration and
  returns 0. In bare mode \<open>fseek\<close> fails at offset 0 and the file is the terminator
  alone; otherwise the seek goes back over the two newlines that end the header
  comment.
\<close>

theorem empty_input:
  "parse True True example_config [] fopen_w =
     Some (0, \<lparr>contents = [CHR '';'', CHR 0x0A], pos = 2\<rparr>) \<and>
   map_option fst (parse True True (example_config\<lparr>bare := False\<rparr>) [] fopen_w) = Some 0 \<and>
   map_option (contents \<circ> snd) (parse True True (example_config\<lparr>bare := False\<rparr>) [] fopen_w) =
     Some (''/* This file was created from input file in.txt by arrayify */;'' @
           [CHR 0x0A, CHR 0x0A] @ ''// End of file'' @ [CHR 0x0A])"
  by code_simp

text \<open>
  C7 (allocation failure), evaluated: when a \<open>malloc\<close> of \<open>parse\<close> returns no
  buffer, \<open>main\<close> prints that 0 lines were written and returns 0, with no diagnostic,
  and leaves the output file empty.
\<close>

theorem allocation_failure:
  assumes "argInput a = Some inName"
    and "openInput p inName = Some inp" and "nameOk p"
    and "(case argName a of None \<Rightarrow> default_name inName | Some n \<Rightarrow> Some n) = Some name"
    and "argOutput a = Some outName" and "openOutput p outName"
    and "\<not> (bufferOk p \<and> prefixOk p)"
  shows "main a p =
     Inr \<lparr>retValue = 0,
          printed =
            (if too_short name (argLength a)
             then [UsingLineLength (size_to_int (PREFIX_LENGTH + length name + 5)) (argLength a)]
             else []) @
            [Arrifying inName name (checked_length name (argLength a)) outName (argBare a),
             Done 0],
          outputFile = Some (outName, fopen_w)\<rparr>"
  using assms(6,7)
  by (auto simp add: main_with_names[OF assms(1-5)] write_output_def parse_def parse_sized_def)

theorem allocation_failure_witness:
  "argInput example_arguments = Some ''in.txt'' \<and>
   openInput (example_platform\<lparr>bufferOk := False\<rparr>) ''in.txt'' = Some ''a?b'' \<and>
   \<not> (bufferOk (example_platform\<lparr>bufferOk := False\<rparr>) \<and>
      prefixOk (example_platform\<lparr>bufferOk := False\<rparr>)) \<and>
   main example_arguments (example_platform\<lparr>bufferOk := False\<rparr>) =
     Inr \<lparr>retValue = 0,
          printed = [UsingLineLength 22 5, Arrifying ''in.txt'' ''x'' 22 ''out.c'' True, Done 0],
          outputFile = Some (''out.c'', fopen_w)\<rparr>"
  using allocation_failure[where a = example_arguments
      and p = "example_platform\<lparr>bufferOk := False\<rparr>" and inName = "''in.txt''"
      and inp = "''a?b''" and name = "''x''" and outName = "''out.c''"]
    checked_length_max[where name = "''x''" and req = 5]
  by (simp add: example_arguments_def example_platform_def PREFIX_LENGTH_def
      size_to_int_small)

text \<open>
  C8 (minimum line length). For a name of length \<open>L\<close>, given with \<open>-n\<close> or taken from
  the input file name, a requested line length below \<open>16 + L + 5\<close>, negative ones
  included, becomes \<open>16 + L + 5\<close>, and any other is kept. \<open>parse\<close> is called with
  that line length, which makes its configuration \<open>effective\<close>, and \<open>main\<close> returns 0
  with the lines that \<open>parse\<close> wrote. The output is wrapped at that length: no
  physical line is longer, and every line but the last has that length or, where an
  escape pair did not fit any more, one character less.
\<close>

theorem minimum_line_length:
  assumes n: "PREFIX_LENGTH + length name + 5 < 2 ^ 31 - 1"
    and r: "req < 2 ^ 31"
    and a: "argInput a = Some inName" "argLength a = req"
      "(case argName a of None \<Rightarrow> default_name inName | Some n \<Rightarrow> Some n) = Some name"
      "(case argOutput a of
            Some given \<Rightarrow> Some given
          | None \<Rightarrow>
              (if outputNameOk p
               then map_option (\<lambda>d. d @ EXT_SEPARATOR @ OUTPUT_FILE_EXTENSION)
                      (default_name inName)
               else None)) = Some outName"
    and p: "openInput p inName = Some inp" "nameOk p" "openOutput p outName"
      "bufferOk p" "prefixOk p"
  shows "checked_length name req =
       (if req < int (16 + length name + 5) then int (16 + length name + 5) else req) \<and>
     (req < 2 ^ 31 - 1 \<longrightarrow>
       effective \<lparr>pInputFileName = inName, pExeFileName = argExe a, bare = argBare a,
                  pName = name, lineLength = checked_length name req\<rparr> \<and>
       (\<exists>st ls. literal_lines
               \<lparr>pInputFileName = inName, pExeFileName = argExe a, bare = argBare a,
                pName = name, lineLength = checked_length name req\<rparr> 120 inp fopen_w = Some st \<and>
             main a p =
               Inr \<lparr>retValue = 0,
                    printed =
                      (if req < int (16 + length name + 5)
                       then [UsingLineLength (int (16 + length name + 5)) req] else []) @
                      [Arrifying inName name (checked_length name req) outName (argBare a),
                       Done (sint (linesWritten st))],
                    outputFile = Some (outName,
                      write_endfix
                        \<lparr>pInputFileName = inName, pExeFileName = argExe a, bare = argBare a,
                         pName = name, lineLength = checked_length name req\<rparr> (sink st))\<rparr> \<and>
             physical_lines (PREFIX_LENGTH + length name)
               (literal_text
                  \<lparr>pInputFileName = inName, pExeFileName = argExe a, bare = argBare a,
                   pName = name, lineLength = checked_length name req\<rparr> st) = Some ls \<and>
             concat (map whole ls) =
               literal_text
                  \<lparr>pInputFileName = inName, pExeFileName = argExe a, bare = argBare a,
                   pName = name, lineLength = checked_length name req\<rparr> st \<and>
             (\<forall>l \<in> set ls. int (length (whole l)) \<le> checked_length name req) \<and>
             (\<forall>l \<in> set (butlast ls). checked_length name req - 1 \<le> int (length (whole l)))))"
proof -
  let ?cfg = "\<lparr>pInputFileName = inName, pExeFileName = argExe a, bare = argBare a,
                pName = name, lineLength = checked_length name req\<rparr>"
  have n': "PREFIX_LENGTH + length name + 5 < 2 ^ 31" using n by simp
  have short: "too_short name req \<longleftrightarrow> req < int (16 + length name + 5)"
    by (rule checked_length_max(1)[OF n' r])
  have len: "checked_length name req = max req (int (16 + length name + 5))"
    by (rule checked_length_max(2)[OF n' r])
  have m: "size_to_int (PREFIX_LENGTH + length name + 5) = int (16 + length name + 5)"
    using n' by (simp add: size_to_int_small PREFIX_LENGTH_def)
  have first: "checked_length name req =
       (if req < int (16 + length name + 5) then int (16 + length name + 5) else req)"
    unfolding len by (simp add: max_def)
  have second: "effective ?cfg \<and>
       (\<exists>st ls. literal_lines ?cfg 120 inp fopen_w = Some st \<and>
             main a p =
               Inr \<lparr>retValue = 0,
                    printed =
                      (if req < int (16 + length name + 5)
                       then [UsingLineLength (int (16 + length name + 5)) req] else []) @
                      [Arrifying inName name (checked_length name req) outName (argBare a),
                       Done (sint (linesWritten st))],
                    outputFile = Some (outName, write_endfix ?cfg (sink st))\<rparr> \<and>
             physical_lines (PREFIX_LENGTH + length name) (literal_text ?cfg st) = Some ls \<and>
             concat (map whole ls) = literal_text ?cfg st \<and>
             (\<forall>l \<in> set ls. int (length (whole l)) \<le> checked_length name req) \<and>
             (\<forall>l \<in> set (butlast ls). checked_length name req - 1 \<le> int (length (whole l))))"
    if r2: "req < 2 ^ 31 - 1"
  proof -
    have e: "effective ?cfg"
      unfolding len by (rule effective_checked[OF n r2])
    obtain st where st: "literal_lines ?cfg 120 inp fopen_w = Some st"
       "literal_text ?cfg st = render ?cfg (groups ?cfg inp)"
       "parse_sized 120 True True ?cfg inp fopen_w
          = Some (sint (linesWritten st), write_endfix ?cfg (sink st))"
      using literal_text_run[OF e, of 120 inp] by (auto simp add: parse_sized_def)
    let ?ls = "laid_out ?cfg (groups ?cfg inp)"
    have "main a p =
               Inr \<lparr>retValue = 0,
                    printed =
                      (if req < int (16 + length name + 5)
                       then [UsingLineLength (int (16 + length name + 5)) req] else []) @
                      [Arrifying inName name (checked_length name req) outName (argBare a),
                       Done (sint (linesWritten st))],
                    outputFile = Some (outName, write_endfix ?cfg (sink st))\<rparr>"
      using p(3,4,5) st(3) a(2) short m
      by (simp add: main_resolved[OF a(1) p(1) p(2) a(3) a(4)] write_output_def parse_def)
    moreover have "physical_lines (PREFIX_LENGTH + length name) (literal_text ?cfg st) = Some ?ls"
      using physical_lines_render[of ?cfg "groups ?cfg inp"] by (simp add: st(2))
    moreover have "concat (map whole ?ls) = literal_text ?cfg st"
      by (simp add: whole_laid_out st(2))
    moreover have "\<forall>l \<in> set ?ls. int (length (whole l)) \<le> checked_length name req"
      using laid_out_bound[OF e] by auto
    moreover have "\<forall>l \<in> set (butlast ?ls). checked_length name req - 1 \<le> int (length (whole l))"
      using laid_out_filled[OF e] by auto
    ultimately show ?thesis using e st(1) by blast
  qed
  show ?thesis using first second by blast
qed

theorem minimum_line_length_witness:
  "PREFIX_LENGTH + length ''in'' + 5 < 2 ^ 31 - 1 \<and> (- 3::int) < 2 ^ 31 \<and>
   checked_length ''in'' (- 3) = 23 \<and>
   effective \<lparr>pInputFileName = ''in.txt'', pExeFileName = ''arrayify'', bare = True,
              pName = ''in'', lineLength = checked_length ''in'' (- 3)\<rparr>"
  using minimum_line_length[where a = example_defaults and p = example_platform
      and inName = "''in.txt''" and inp = "''a?b''" and name = "''in''"
      and outName = "''in.array''" and req = "- 3"]
  by (auto simp add: example_defaults_def example_platform_def PREFIX_LENGTH_def
      default_name_example EXT_SEPARATOR_def OUTPUT_FILE_EXTENSION_def)

text \<open>
  C9 (pending escape). The run starts between two bytes, at the end of the output
  file; from a state between two bytes the inner loop returns, for every buffer, in a
  state between two bytes, where \<open>addEscaped\<close> is 0; and after any number of
  iterations \<open>addEscaped\<close> is 0, 1 or 2, and when it is not 0 the input cursor is
  still at the byte that is being escaped.
  What is written for one byte \<open>c\<close>: when the cursor has moved past \<open>c\<close> (the loop on
  the buffer \<open>[c]\<close> has returned, and a longer buffer goes on from the same state),
  the output has grown by the backslash and the mnemonic of \<open>c\<close>, next to each other,
  or by \<open>c\<close> itself when it needs no escape; before them at most the start of a line
  (after the end of the line before), after them at most the end of the line.
\<close>

theorem pending_escape:
  assumes e: "effective cfg" and b: "boundary cfg st"
  shows "boundary cfg (start cfg out) \<and>
     pos (sink (start cfg fopen_w)) = length (contents (sink (start cfg fopen_w))) \<and>
     (\<exists>st'. process_buffer cfg buffer st = Some st' \<and> boundary cfg st') \<and>
     (\<forall>n. addEscaped (snd (iterations cfg n buffer st)) \<in> {0, 1, 2} \<and>
          (addEscaped (snd (iterations cfg n buffer st)) \<noteq> 0 \<longrightarrow>
             fst (iterations cfg n buffer st) \<noteq> [] \<and>
             escapeRequired (hd (fst (iterations cfg n buffer st))))) \<and>
     (pos (sink st) = length (contents (sink st)) \<longrightarrow>
       (\<exists>st' n pre post.
          process_buffer cfg [c] st = Some st' \<and>
          iterations cfg n [c] st = ([], st') \<and>
          process_buffer cfg (c # rest) st = process_buffer cfg rest st' \<and>
          boundary cfg st' \<and>
          pos (sink st') = length (contents (sink st')) \<and>
          written st' =
            written st @ pre @
            (if escapeRequired c then [CHR 0x5C, escapedChar c] else [c]) @ post \<and>
          pre \<in> {[], lead cfg (prefixHeld st) @ [CHR 0x22],
                  POSTFIX @ lead cfg (prefixHeld st) @ [CHR 0x22]} \<and>
          post \<in> {[], POSTFIX}))"
proof -
  have a: "addEscaped st \<in> {0, 1, 2}"
      "addEscaped st \<noteq> 0 \<longrightarrow> buffer \<noteq> [] \<and> escapeRequired (hd buffer)"
    using b by (simp_all add: boundary_def)
  have third: "addEscaped (snd (iterations cfg n buffer st)) \<in> {0, 1, 2} \<and>
          (addEscaped (snd (iterations cfg n buffer st)) \<noteq> 0 \<longrightarrow>
             fst (iterations cfg n buffer st) \<noteq> [] \<and>
             escapeRequired (hd (fst (iterations cfg n buffer st))))" for n
    using iterations_pending[OF a, of cfg n "fst (iterations cfg n buffer st)"
        "snd (iterations cfg n buffer st)"]
    by simp
  have fourth: "\<exists>st' n pre post.
          process_buffer cfg [c] st = Some st' \<and>
          iterations cfg n [c] st = ([], st') \<and>
          process_buffer cfg (c # rest) st = process_buffer cfg rest st' \<and>
          boundary cfg st' \<and>
          pos (sink st') = length (contents (sink st')) \<and>
          written st' =
            written st @ pre @
            (if escapeRequired c then [CHR 0x5C, escapedChar c] else [c]) @ post \<and>
          pre \<in> {[], lead cfg (prefixHeld st) @ [CHR 0x22],
                  POSTFIX @ lead cfg (prefixHeld st) @ [CHR 0x22]} \<and>
          post \<in> {[], POSTFIX}"
    if ap: "pos (sink st) = length (contents (sink st))"
  proof -
    have one: "process_buffer cfg [c] st = Some (emit cfg c st)"
      by (simp add: macro_step[OF e b] pb_Nil)
    then obtain n where n: "iterations cfg n [c] st = ([], emit cfg c st)"
      using iterations_of_process_buffer by blast
    obtain pre post where w: "written (emit cfg c st) = written st @ pre @ escape c @ post"
       "pre \<in> {[], lead cfg (prefixHeld st) @ [CHR 0x22],
               POSTFIX @ lead cfg (prefixHeld st) @ [CHR 0x22]}"
       "post \<in> {[], POSTFIX}"
       "pos (sink (emit cfg c st)) = length (contents (sink (emit cfg c st)))"
      using written_emit[OF e b ap, of c] by blast
    have "written (emit cfg c st) =
            written st @ pre @
            (if escapeRequired c then [CHR 0x5C, escapedChar c] else [c]) @ post"
      using w(1) by (simp add: escape_def)
    then show ?thesis
      using one n macro_step[OF e b, of c rest] boundary_emit[OF e b, of c] w(2,3,4) by blast
  qed
  have "pos (sink (start cfg fopen_w)) = length (contents (sink (start cfg fopen_w)))"
    by (simp add: start_def fopen_w_def fwrite_def)
  then show ?thesis
    using boundary_start[of cfg out] process_buffer_boundary[OF e b, of buffer] third fourth
    by blast
qed

theorem pending_escape_witness:
  "effective example_config \<and> boundary example_config (start example_config fopen_w) \<and>
   pos (sink (start example_config fopen_w))
     = length (contents (sink (start example_config fopen_w))) \<and>
   (\<exists>st'. process_buffer example_config ''a?b'' (start example_config fopen_w) = Some st' \<and>
      boundary example_config st') \<and>
   (\<exists>st' pre post.
      process_buffer example_config ''?'' (start example_config fopen_w) = Some st' \<and>
      written st' =
        written (start example_config fopen_w) @ pre @ [CHR 0x5C, CHR ''?''] @ post)"
proof -
  have ap: "pos (sink (start example_config fopen_w))
     = length (contents (sink (start example_config fopen_w)))"
    by (simp add: start_def example_config_def fopen_w_def)
  have esc: "(if escapeRequired (CHR ''?'') then [CHR 0x5C, escapedChar (CHR ''?'')]
       else [CHR ''?'']) = [CHR 0x5C, CHR ''?'']"
    by (simp add: escapeRequired_def escapedChar_def)
  note t = pending_escape[where cfg = example_config and st = "start example_config fopen_w"
      and out = fopen_w and buffer = "''a?b''" and c = "CHR ''?''" and rest = "[]",
      OF effective_example boundary_start, unfolded esc]
  from t ap show ?thesis
    using effective_example boundary_start[of example_config fopen_w] by blast
qed

text \<open>
  C10 (escape pairs stay on one line). The content of every physical line is, on its
  own, the escaped form of a group of input bytes, and the groups in order make up the
  input: no line ends between a backslash and its mnemonic.
\<close>

theorem escape_pair_unsplit:
  assumes e: "effective cfg" and c: "0 < count"
  shows "\<exists>st ls gs. literal_lines cfg count inp fopen_w = Some st \<and>
     physical_lines (nat (prefixLength cfg)) (literal_text cfg st) = Some ls \<and>
     map snd ls = map escape_all gs \<and>
     map (\<lambda>l. unescape (snd l)) ls = map Some gs \<and>
     concat gs = inp"
proof -
  obtain st where st: "literal_lines cfg count inp fopen_w = Some st"
      "literal_text cfg st = render cfg (groups cfg inp)"
    using literal_text_run[OF e c, of inp] by blast
  let ?ls = "laid_out cfg (groups cfg inp)"
  have "physical_lines (nat (prefixLength cfg)) (literal_text cfg st) = Some ?ls"
    by (simp only: st physical_lines_groups[OF e])
  moreover have s: "map snd ?ls = map escape_all (groups cfg inp)"
    by (rule snd_laid_out)
  moreover have "map (\<lambda>l. unescape (snd l)) ?ls = map Some (groups cfg inp)"
  proof -
    have "map (\<lambda>l. unescape (snd l)) ?ls = map unescape (map snd ?ls)"
      by (simp add: comp_def)
    also have "\<dots> = map Some (groups cfg inp)"
      unfolding s by (simp add: unescape_escape_all)
    finally show ?thesis .
  qed
  ultimately show ?thesis using st(1) concat_groups[of cfg inp] by blast
qed

theorem escape_pair_unsplit_witness:
  "effective example_config \<and> (0::nat) < 120 \<and>
   (\<exists>st ls gs. literal_lines example_config 120 ''a?b'' fopen_w = Some st \<and>
     physical_lines (nat (prefixLength example_config)) (literal_text example_config st) = Some ls \<and>
     map snd ls = map escape_all gs \<and>
     map (\<lambda>l. unescape (snd l)) ls = map Some gs \<and>
     concat gs = ''a?b'')"
  using escape_pair_unsplit[where cfg = example_config and count = 120 and inp = "''a?b''",
      OF effective_example]
    effective_example
  by simp

end
